theory Spec2Isabelle
  imports Complex_Main
begin

section \<open>Data model of the simulator\<close>

text \<open>
  The script keeps two module-level arrays, \<open>nodes\<close> and \<open>channels\<close>. A channel is the
  object \<open>{element, start, end, capacity}\<close>; the DOM element is presentation only and is
  left out. Node indices and satoshi amounts are JavaScript numbers holding integers and
  are modelled as \<open>int\<close>. The capacity is read from a table by index
  (\<open>capacities[...]\<close>), which in JavaScript yields \<open>undefined\<close> out of range: the field is
  an \<open>int option\<close>, \<open>None\<close> standing for \<open>undefined\<close>. The field \<open>end\<close> is named
  \<open>endp\<close>, the source's name being reserved. A node is the \<open>div\<close> created for it: its
  text (the label) and its random position, the two numbers that are printed into its
  style.
\<close>

record channel =
  start :: int
  endp :: int
  capacity :: "int option"

record node =
  label :: string
  left_px :: rat
  top_px :: rat

record network =
  nodes :: "node list"
  channels :: "channel list"

text \<open>\<open>c.capacity >= amount\<close>; the comparison with \<open>undefined\<close> is false.\<close>

definition capacity_ge :: "channel \<Rightarrow> int \<Rightarrow> bool" where
  "capacity_ge c amount = (case capacity c of None \<Rightarrow> False | Some k \<Rightarrow> amount \<le> k)"

section \<open>JavaScript numbers\<close>

text \<open>Decimal digits of a non-negative integer, as JavaScript prints it.\<close>

definition digit :: "int \<Rightarrow> char" where
  "digit d = char_of (48 + d)"

function decimal :: "int \<Rightarrow> string" where
  "decimal n = (if n < 10 then [digit n] else decimal (n div 10) @ [digit (n mod 10)])"
  by pat_completeness auto
termination
  by (relation "measure nat") auto

declare decimal.simps [simp del]

text \<open>
  A finite IEEE 754 double is modelled as the rational it denotes. The result of an
  arithmetic operation is the exact result rounded to the nearest double, ties to even:
  to a multiple of the unit in the last place of its binade, which is \<open>2^(e - 52)\<close> for
  the binary exponent \<open>e\<close> of the exact result and \<open>2^-1074\<close> in the subnormal range.
  Results of magnitude \<open>2^1024\<close> and more (infinity) are not modelled; no product or
  quotient below reaches them. \<open>ilog2 n\<close> is the position of the leading bit of \<open>n\<close>, and
  \<open>quotient_exponent a b\<close> the binary exponent of \<open>a / b\<close>, for positive \<open>a\<close> and \<open>b\<close>.
\<close>

function ilog2 :: "int \<Rightarrow> nat" where
  "ilog2 n = (if n < 2 then 0 else Suc (ilog2 (n div 2)))"
  by pat_completeness auto
termination
  by (relation "measure nat") auto

declare ilog2.simps [simp del]

definition quotient_exponent :: "int \<Rightarrow> int \<Rightarrow> int" where
  "quotient_exponent a b =
     (let d = int (ilog2 a) - int (ilog2 b)
      in if a * 2 ^ ilog2 b < b * 2 ^ ilog2 a then d - 1 else d)"

definition pow2 :: "int \<Rightarrow> rat" where
  "pow2 k = (if 0 \<le> k then 2 ^ nat k else 1 / 2 ^ nat (- k))"

definition round_half_even :: "rat \<Rightarrow> int" where
  "round_half_even y =
     (let f = \<lfloor>y\<rfloor>; r = y - of_int f
      in if r < 1 / 2 then f else if 1 / 2 < r then f + 1 else if even f then f else f + 1)"

definition double_unit :: "rat \<Rightarrow> rat" where
  "double_unit x =
     (case quotient_of \<bar>x\<bar> of (a, b) \<Rightarrow> pow2 (max (quotient_exponent a b - 52) (- 1074)))"

definition round_to_double :: "rat \<Rightarrow> rat" where
  "round_to_double x =
     (if x = 0 then 0
      else sgn x * of_int (round_half_even (\<bar>x\<bar> / double_unit x)) * double_unit x)"

text \<open>The doubles are the rationals that rounding leaves unchanged, below \<open>2^1024\<close>.\<close>

definition is_double :: "rat \<Rightarrow> bool" where
  "is_double x = (round_to_double x = x \<and> \<bar>x\<bar> < 2 ^ 1024)"

text \<open>
  \<open>a / b\<close> for two numbers holding integers, the divisor not zero (in the script it is
  one of two constants), and \<open>x * y\<close> for two doubles.
\<close>

definition number_div :: "int \<Rightarrow> int \<Rightarrow> rat" where
  "number_div a b = round_to_double (of_int a / of_int b)"

definition number_mul :: "rat \<Rightarrow> rat \<Rightarrow> rat" where
  "number_mul x y = round_to_double (x * y)"

section \<open>The generator: generateNetwork and generateCapacity\<close>

text \<open>
  The node label
  \<open>String.fromCharCode(65 + i % 26) + (i >= 26 ? Math.floor(i / 26) : '')\<close>.
\<close>

definition node_label :: "int \<Rightarrow> string" where
  "node_label i =
     char_of (65 + i mod 26) # (if i \<ge> 26 then decimal (i div 26) else [])"

text \<open>
  \<open>Math.random()\<close> is an injected source: \<open>rng k\<close> is the value of the \<open>k\<close>-th call, a
  double that ECMAScript places in \<open>[0, 1)\<close>; every loop threads the number of calls
  made so far. \<open>generateCapacity\<close> takes its one draw as argument and reads
  \<open>capacities[Math.floor(draw * capacities.length)]\<close>, the product being the double
  product.
\<close>

definition capacities :: "int list" where
  "capacities = [5000000, 10000000, 20000000, 30000000, 40000000, 50000000,
                 60000000, 70000000, 80000000, 90000000, 100000000, 200000000]"

definition generateCapacity :: "rat \<Rightarrow> int option" where
  "generateCapacity r =
     (let i = \<lfloor>number_mul r (of_nat (length capacities))\<rfloor>
      in if 0 \<le> i \<and> i < int (length capacities) then Some (capacities ! nat i) else None)"

text \<open>
  The first loop of \<open>generateNetwork\<close> creates the nodes, drawing the two coordinates of
  each (\<open>Math.random() * 760\<close> and \<open>Math.random() * 560\<close>). The nested iteration runs
  over \<open>i < j\<close>; each pair draws once for inclusion and, when included, once more for the
  capacity. Each loop appends to \<open>nodes\<close> or \<open>channels\<close>, which start empty.
  \<open>numNodes\<close> is the result of \<open>parseInt\<close> and \<open>channelProbability\<close> that of
  \<open>parseFloat\<close>.
\<close>

function node_loop ::
  "int \<Rightarrow> (nat \<Rightarrow> rat) \<Rightarrow> int \<Rightarrow> nat \<Rightarrow> node list \<Rightarrow> node list \<times> nat" where
  "node_loop numNodes rng i k ns =
     (if i < numNodes then
        node_loop numNodes rng (i + 1) (k + 2)
          (ns @ [\<lparr>label = node_label i, left_px = number_mul (rng k) 760,
                  top_px = number_mul (rng (k + 1)) 560\<rparr>])
      else (ns, k))"
  by pat_completeness auto
termination
  by (relation "measure (\<lambda>(numNodes, rng, i, k, ns). nat (numNodes - i))") auto

function channel_loop ::
  "int \<Rightarrow> rat \<Rightarrow> (nat \<Rightarrow> rat) \<Rightarrow> int \<Rightarrow> int \<Rightarrow> nat \<Rightarrow> channel list \<Rightarrow> channel list \<times> nat" where
  "channel_loop numNodes channelProbability rng i j k chans =
     (if j < numNodes then
        (if rng k < channelProbability then
           channel_loop numNodes channelProbability rng i (j + 1) (k + 2)
             (chans @ [\<lparr>start = i, endp = j, capacity = generateCapacity (rng (k + 1))\<rparr>])
         else channel_loop numNodes channelProbability rng i (j + 1) (k + 1) chans)
      else (chans, k))"
  by pat_completeness auto
termination
  by (relation "measure (\<lambda>(numNodes, p, rng, i, j, k, chans). nat (numNodes - j))") auto

function pair_loop ::
  "int \<Rightarrow> rat \<Rightarrow> (nat \<Rightarrow> rat) \<Rightarrow> int \<Rightarrow> nat \<Rightarrow> channel list \<Rightarrow> channel list \<times> nat" where
  "pair_loop numNodes channelProbability rng i k chans =
     (if i < numNodes then
        (case channel_loop numNodes channelProbability rng i (i + 1) k chans of
           (chans', k') \<Rightarrow> pair_loop numNodes channelProbability rng (i + 1) k' chans')
      else (chans, k))"
  by pat_completeness auto
termination
  by (relation "measure (\<lambda>(numNodes, p, rng, i, k, chans). nat (numNodes - i))") auto

definition generateNetwork :: "int \<Rightarrow> rat \<Rightarrow> (nat \<Rightarrow> rat) \<Rightarrow> network" where
  "generateNetwork numNodes channelProbability rng =
     (case node_loop numNodes rng 0 0 [] of
        (ns, k) \<Rightarrow>
          (case pair_loop numNodes channelProbability rng 0 k [] of
             (chans, k') \<Rightarrow> \<lparr>nodes = ns, channels = chans\<rparr>))"

section \<open>Formatting: formatCapacity\<close>

text \<open>
  \<open>Number::toString\<close> for a double \<open>x \<ge> 10^21\<close>, which is an integer of \<open>d\<close> decimal
  digits: the least number \<open>k\<close> of significant digits \<open>s\<close> such that \<open>s * 10^(n - k)\<close>
  rounds to \<open>x\<close>, the nearest such \<open>s\<close> (the even one at a tie), printed in exponent
  notation. For each \<open>k\<close> the candidates are the two multiples of \<open>10^(d - k)\<close> around
  \<open>x\<close>; seventeen digits always suffice. \<open>shortest_digits\<close> returns the digits and \<open>n\<close>.
\<close>

fun shortest_digits :: "nat \<Rightarrow> nat \<Rightarrow> rat \<Rightarrow> string \<times> int" where
  "shortest_digits 0 k x = (decimal \<lfloor>x\<rfloor>, int (length (decimal \<lfloor>x\<rfloor>)))"
| "shortest_digits (Suc fuel) k x =
     (let d = length (decimal \<lfloor>x\<rfloor>);
          p = 10 ^ (d - k);
          lo = \<lfloor>x\<rfloor> div p;
          hi = lo + 1;
          ok_lo = (round_to_double (of_int (lo * p)) = x);
          ok_hi = (round_to_double (of_int (hi * p)) = x);
          below = x - of_int (lo * p);
          above = of_int (hi * p) - x;
          take_hi = (ok_hi \<and> (\<not> ok_lo \<or> above < below \<or> (above = below \<and> even hi)))
      in if take_hi then (if hi = 10 ^ k then (''1'', int d + 1) else (decimal hi, int d))
         else if ok_lo then (decimal lo, int d)
         else shortest_digits fuel (Suc k) x)"

definition toString_large :: "rat \<Rightarrow> string" where
  "toString_large x =
     (case shortest_digits 17 1 x of
        (ds, n) \<Rightarrow>
          (if length ds = 1 then ds else hd ds # ''.'' @ tl ds) @ ''e+'' @ decimal (n - 1))"

text \<open>
  \<open>x.toFixed(2)\<close> for a double \<open>x\<close>: a minus sign when \<open>x < 0\<close>; then, for
  \<open>|x| \<ge> 10^21\<close>, the string of the number, and otherwise the integer \<open>n\<close> nearest to
  \<open>100 * |x|\<close> (the larger one at a tie) printed with two digits after the point.
\<close>

definition toFixed2 :: "rat \<Rightarrow> string" where
  "toFixed2 x =
     (if x < 0 then ''-'' else []) @
     (if 10 ^ 21 \<le> \<bar>x\<bar> then toString_large \<bar>x\<bar>
      else let n = \<lfloor>\<bar>x\<bar> * 100 + 1 / 2\<rfloor>
           in decimal (n div 100) @ ''.'' @ [digit (n mod 100 div 10), digit (n mod 10)])"

definition formatCapacity :: "int \<Rightarrow> string" where
  "formatCapacity sats =
     (if sats \<ge> 100000000 then toFixed2 (number_div sats 100000000) @ '' BTC''
      else toFixed2 (number_div sats 1000000) @ ''m sats'')"

declare node_loop.simps [simp del] channel_loop.simps [simp del] pair_loop.simps [simp del]

section \<open>The router: findPathWithCapacity\<close>

text \<open>
  The validity check of a path that reached the target:
  \<open>path.every((node, index) => ...)\<close>, where the last index is accepted and every other
  index looks up the first channel joining \<open>node\<close> and \<open>path[index + 1]\<close> with
  \<open>channels.find\<close>.
\<close>

definition joins :: "int \<Rightarrow> int \<Rightarrow> channel \<Rightarrow> bool" where
  "joins a b c = ((start c = a \<and> endp c = b) \<or> (endp c = a \<and> start c = b))"

fun isPathValid :: "channel list \<Rightarrow> int \<Rightarrow> int list \<Rightarrow> bool" where
  "isPathValid chans amount [] = True"
| "isPathValid chans amount [node] = True"
| "isPathValid chans amount (node # next # rest) =
     ((case find (joins node next) chans of
         None \<Rightarrow> False
       | Some c \<Rightarrow> capacity_ge c amount)
      \<and> isPathValid chans amount (next # rest))"

text \<open>
  \<open>channels.filter(c => (c.start === node || c.end === node) && c.capacity >= amount)
  .map(c => c.start === node ? c.end : c.start)\<close>
\<close>

definition neighbors :: "channel list \<Rightarrow> int \<Rightarrow> int \<Rightarrow> int list" where
  "neighbors chans amount node =
     map (\<lambda>c. if start c = node then endp c else start c)
       (filter (\<lambda>c. (start c = node \<or> endp c = node) \<and> capacity_ge c amount) chans)"

definition endpoints :: "channel list \<Rightarrow> int set" where
  "endpoints chans = set (map start chans) \<union> set (map endp chans)"

text \<open>
  The \<open>while (queue.length > 0)\<close> loop. Its state is the \<open>visited\<close> set and the queue of
  paths; \<open>queue.shift()\<close> takes the head and \<open>queue.push\<close> appends. The queue only ever
  holds non-empty paths (it starts as \<open>[[start]]\<close> and every pushed path extends one);
  for an empty path JavaScript would read \<open>undefined\<close> as the node, which is not the
  target and touches no channel, so the iteration only drops that path.
\<close>

function bfs_loop ::
  "channel list \<Rightarrow> int \<Rightarrow> int \<Rightarrow> int set \<Rightarrow> int list list \<Rightarrow> int list" where
  "bfs_loop chans e amount visited [] = []"
| "bfs_loop chans e amount visited (path # queue) =
     (if path = [] then bfs_loop chans e amount visited queue
      else if last path = e \<and> isPathValid chans amount path then path
      else if last path \<notin> visited then
        bfs_loop chans e amount (insert (last path) visited)
          (queue @ map (\<lambda>neighbor. path @ [neighbor]) (neighbors chans amount (last path)))
      else bfs_loop chans e amount visited queue)"
  by pat_completeness auto

termination
proof (relation "inv_image (less_than <*lex*> less_than)
    (\<lambda>(chans, e, amount, visited, queue). (card (endpoints chans - visited), length queue))",
    goal_cases)
  case 1
  show ?case by (intro wf_inv_image wf_lex_prod wf_less_than)
next
  case (2 chans e amount visited path queue)
  show ?case by simp
next
  case (3 chans e amount visited path queue)
  have fin: "finite (endpoints chans)" by (simp add: endpoints_def)
  show ?case
  proof (cases "last path \<in> endpoints chans")
    case True
    with 3 have "endpoints chans - insert (last path) visited \<subset> endpoints chans - visited"
      by auto
    then have "card (endpoints chans - insert (last path) visited) < card (endpoints chans - visited)"
      by (intro psubset_card_mono) (simp_all add: fin)
    then show ?thesis by simp
  next
    case False
    then have "\<forall>c \<in> set chans. start c \<noteq> last path \<and> endp c \<noteq> last path"
      by (force simp: endpoints_def)
    then have "neighbors chans amount (last path) = []"
      by (simp add: neighbors_def filter_empty_conv)
    moreover from False
    have "endpoints chans - insert (last path) visited = endpoints chans - visited"
      by auto
    ultimately show ?thesis by simp
  qed
next
  case (4 chans e amount visited path queue)
  show ?case by simp
qed

text \<open>The function itself: \<open>visited = new Set()\<close>, \<open>queue = [[start]]\<close>; \<open>[]\<close> means not found.\<close>

definition findPathWithCapacity :: "channel list \<Rightarrow> int \<Rightarrow> int \<Rightarrow> int \<Rightarrow> int list" where
  "findPathWithCapacity chans s e amount = bfs_loop chans e amount {} [[s]]"

section \<open>Notions of the specification\<close>

text \<open>
  Two nodes are joined by a capacity-eligible channel; a path all of whose consecutive
  pairs are; and a route from \<open>s\<close>: a non-empty eligible path that starts at \<open>s\<close>.
\<close>

definition eligible :: "channel list \<Rightarrow> int \<Rightarrow> int \<Rightarrow> int \<Rightarrow> bool" where
  "eligible chans amount a b = (\<exists>c \<in> set chans. joins a b c \<and> capacity_ge c amount)"

fun eligible_path :: "channel list \<Rightarrow> int \<Rightarrow> int list \<Rightarrow> bool" where
  "eligible_path chans amount [] = True"
| "eligible_path chans amount [a] = True"
| "eligible_path chans amount (a # b # rest) =
     (eligible chans amount a b \<and> eligible_path chans amount (b # rest))"

definition route :: "channel list \<Rightarrow> int \<Rightarrow> int \<Rightarrow> int list \<Rightarrow> bool" where
  "route chans amount s p = (p \<noteq> [] \<and> hd p = s \<and> eligible_path chans amount p)"

text \<open>
  The invariant of the data model: at most one channel per unordered pair of nodes.
  A node identity is valid for a network when it indexes \<open>nodes\<close>.
\<close>

definition pair_of :: "channel \<Rightarrow> int \<times> int" where
  "pair_of c = (min (start c) (endp c), max (start c) (endp c))"

definition no_parallel :: "channel list \<Rightarrow> bool" where
  "no_parallel chans = distinct (map pair_of chans)"

definition valid_node :: "network \<Rightarrow> int \<Rightarrow> bool" where
  "valid_node net i = (0 \<le> i \<and> i < int (length (nodes net)))"

text \<open>The network of the specification's first scenarios, and one with a detour.\<close>

definition scenario :: "channel list" where
  "scenario = [\<lparr>start = 0, endp = 1, capacity = Some 10000000\<rparr>,
               \<lparr>start = 1, endp = 2, capacity = Some 10000000\<rparr>]"

definition scenario_net :: network where
  "scenario_net =
     \<lparr>nodes = [\<lparr>label = ''A'', left_px = 0, top_px = 0\<rparr>,
               \<lparr>label = ''B'', left_px = 100, top_px = 0\<rparr>,
               \<lparr>label = ''C'', left_px = 200, top_px = 0\<rparr>],
      channels = scenario\<rparr>"

definition detour :: "channel list" where
  "detour = [\<lparr>start = 0, endp = 3, capacity = Some 20000000\<rparr>,
             \<lparr>start = 3, endp = 4, capacity = Some 20000000\<rparr>,
             \<lparr>start = 2, endp = 4, capacity = Some 20000000\<rparr>,
             \<lparr>start = 0, endp = 2, capacity = Some 5000000\<rparr>,
             \<lparr>start = 0, endp = 1, capacity = Some 10000000\<rparr>,
             \<lparr>start = 1, endp = 2, capacity = Some 10000000\<rparr>]"

text \<open>
  Invariants used in the proofs. For the search, at level \<open>L\<close>: the queue holds routes
  of \<open>L\<close> or \<open>L + 1\<close> nodes in that order, every eligible neighbour of a visited node is
  visited or pending, the target is unvisited, every node with a route of fewer than
  \<open>L\<close> nodes is visited, and every node with a route of \<open>L\<close> nodes is visited or pending
  at that length. For the generator, before the pair \<open>(i, j)\<close>: the channels made so far
  join pairs \<open>start < end\<close> below \<open>(i, j)\<close>, once each, with capacities of the table.
\<close>

definition bfs_inv ::
  "channel list \<Rightarrow> int \<Rightarrow> int \<Rightarrow> int \<Rightarrow> nat \<Rightarrow> int set \<Rightarrow> int list list \<Rightarrow> bool" where
  "bfs_inv chans amount s e L visited queue \<longleftrightarrow>
     0 < L \<and>
     (\<forall>q \<in> set queue. route chans amount s q \<and> (length q = L \<or> length q = Suc L)) \<and>
     sorted_wrt (\<lambda>a b. length a \<le> length b) queue \<and>
     (\<forall>u \<in> visited. \<forall>w. eligible chans amount u w \<longrightarrow> w \<in> visited \<or> w \<in> last ` set queue) \<and>
     e \<notin> visited \<and>
     (\<forall>p. route chans amount s p \<and> length p < L \<longrightarrow> last p \<in> visited) \<and>
     (\<forall>p. route chans amount s p \<and> length p = L \<longrightarrow>
          last p \<in> visited \<or> (\<exists>q \<in> set queue. length q = L \<and> last q = last p))"

definition gen_inv :: "int \<Rightarrow> int \<Rightarrow> int \<Rightarrow> channel list \<Rightarrow> bool" where
  "gen_inv numNodes i j chans \<longleftrightarrow>
     distinct (map pair_of chans) \<and>
     (\<forall>c \<in> set chans. 0 \<le> start c \<and> start c < endp c \<and> endp c < numNodes \<and>
        (start c < i \<or> (start c = i \<and> endp c < j)) \<and>
        (\<exists>v \<in> set capacities. capacity c = Some v))"

section \<open>Properties of the search\<close>

subsection \<open>One iteration of the loop\<close>

lemma bfs_loop_return:
  "path \<noteq> [] \<Longrightarrow> last path = e \<Longrightarrow> isPathValid chans amount path \<Longrightarrow>
   bfs_loop chans e amount visited (path # queue) = path"
  by simp

lemma bfs_loop_skip:
  "path \<noteq> [] \<Longrightarrow> \<not> (last path = e \<and> isPathValid chans amount path) \<Longrightarrow>
   last path \<in> visited \<Longrightarrow>
   bfs_loop chans e amount visited (path # queue) = bfs_loop chans e amount visited queue"
  by auto

lemma bfs_loop_expand:
  "path \<noteq> [] \<Longrightarrow> \<not> (last path = e \<and> isPathValid chans amount path) \<Longrightarrow>
   last path \<notin> visited \<Longrightarrow>
   bfs_loop chans e amount visited (path # queue) =
   bfs_loop chans e amount (insert (last path) visited)
     (queue @ map (\<lambda>neighbor. path @ [neighbor]) (neighbors chans amount (last path)))"
  by auto

declare bfs_loop.simps(2) [simp del]

subsection \<open>Eligible paths\<close>

lemma neighbors_iff: "w \<in> set (neighbors chans amount v) \<longleftrightarrow> eligible chans amount v w"
  by (auto simp: neighbors_def eligible_def joins_def)

lemma eligible_path_snoc:
  "p \<noteq> [] \<Longrightarrow> eligible_path chans amount (p @ [w]) \<longleftrightarrow>
     eligible_path chans amount p \<and> eligible chans amount (last p) w"
  by (induction chans amount p rule: eligible_path.induct) auto

lemma eligible_path_nth:
  "eligible_path chans amount p \<longleftrightarrow>
     (\<forall>i. Suc i < length p \<longrightarrow> eligible chans amount (p ! i) (p ! Suc i))"
proof (induction chans amount p rule: eligible_path.induct)
  case (3 chans amount a b rest)
  show ?case
  proof
    assume h: "eligible_path chans amount (a # b # rest)"
    show "\<forall>i. Suc i < length (a # b # rest) \<longrightarrow>
        eligible chans amount ((a # b # rest) ! i) ((a # b # rest) ! Suc i)"
    proof (intro allI impI)
      fix i assume "Suc i < length (a # b # rest)"
      with h 3 show "eligible chans amount ((a # b # rest) ! i) ((a # b # rest) ! Suc i)"
        by (cases i) auto
    qed
  next
    assume h: "\<forall>i. Suc i < length (a # b # rest) \<longrightarrow>
        eligible chans amount ((a # b # rest) ! i) ((a # b # rest) ! Suc i)"
    from h[rule_format, of 0] have "eligible chans amount a b" by simp
    moreover have "eligible_path chans amount (b # rest)"
      unfolding 3
    proof (intro allI impI)
      fix i assume "Suc i < length (b # rest)"
      with h[rule_format, of "Suc i"] show "eligible chans amount ((b # rest) ! i) ((b # rest) ! Suc i)"
        by simp
    qed
    ultimately show "eligible_path chans amount (a # b # rest)" by simp
  qed
qed simp_all

lemma route_snoc:
  "route chans amount s p \<Longrightarrow> eligible chans amount (last p) w \<Longrightarrow> route chans amount s (p @ [w])"
  by (simp add: route_def eligible_path_snoc)

lemma route_butlast:
  assumes "route chans amount s p" and "1 < length p"
  shows "route chans amount s (butlast p) \<and> eligible chans amount (last (butlast p)) (last p)"
proof -
  from assms obtain xs x where px: "p = xs @ [x]" and xs: "xs \<noteq> []"
    by (cases p rule: rev_cases) (auto simp: route_def)
  with assms(1) show ?thesis
    by (simp add: route_def eligible_path_snoc)
qed

lemma eligible_path_endpoints:
  "eligible_path chans amount p \<Longrightarrow> 1 < length p \<Longrightarrow>
   hd p \<in> endpoints chans \<and> last p \<in> endpoints chans"
proof (induction chans amount p rule: eligible_path.induct)
  case (3 chans amount a b rest)
  from "3.prems"(1) have ab: "a \<in> endpoints chans" "b \<in> endpoints chans"
    by (auto simp: eligible_def joins_def endpoints_def)
  show ?case
  proof (cases rest)
    case Nil
    with ab show ?thesis by simp
  next
    case (Cons c cs)
    with "3.IH" "3.prems"(1) have "last (b # rest) \<in> endpoints chans" by simp
    with ab show ?thesis by simp
  qed
qed simp_all

subsection \<open>Every queued path is a route, and so is the result\<close>

lemma bfs_loop_route:
  "\<forall>q \<in> set queue. route chans amount s q \<Longrightarrow>
   bfs_loop chans e amount visited queue \<noteq> [] \<Longrightarrow>
   route chans amount s (bfs_loop chans e amount visited queue) \<and>
   last (bfs_loop chans e amount visited queue) = e"
proof (induction chans e amount visited queue rule: bfs_loop.induct)
  case (1 chans e amount visited)
  then show ?case by simp
next
  case (2 chans e amount visited path queue)
  have hp: "route chans amount s path" and hq: "\<forall>q \<in> set queue. route chans amount s q"
    using "2.prems"(1) by simp_all
  then have ne: "path \<noteq> []" by (simp add: route_def)
  show ?case
  proof (cases "last path = e \<and> isPathValid chans amount path")
    case True
    with ne hp show ?thesis by (simp add: bfs_loop_return)
  next
    case ret: False
    show ?thesis
    proof (cases "last path \<in> visited")
      case True
      have eq: "bfs_loop chans e amount visited (path # queue) = bfs_loop chans e amount visited queue"
        using ne ret True by (rule bfs_loop_skip)
      from "2.IH"(3)[OF ne ret _ hq] True "2.prems"(2) show ?thesis
        unfolding eq by simp
    next
      case False
      let ?queue' = "queue @ map (\<lambda>neighbor. path @ [neighbor]) (neighbors chans amount (last path))"
      have eq: "bfs_loop chans e amount visited (path # queue) =
          bfs_loop chans e amount (insert (last path) visited) ?queue'"
        using ne ret False by (rule bfs_loop_expand)
      have "\<forall>q \<in> set ?queue'. route chans amount s q"
        using hq hp by (auto simp: neighbors_iff intro: route_snoc)
      from "2.IH"(2)[OF ne ret False this] "2.prems"(2) show ?thesis
        unfolding eq by simp
    qed
  qed
qed

subsection \<open>No node is repeated\<close>

lemma isPathValid_snoc: "isPathValid chans amount (p @ [w]) \<Longrightarrow> isPathValid chans amount p"
  by (induction chans amount p rule: isPathValid.induct) auto

lemma bfs_loop_distinct:
  "\<forall>q \<in> set queue. q \<noteq> [] \<and> distinct (butlast q) \<and> set (butlast q) \<subseteq> visited \<and>
      (e \<in> set (butlast q) \<longrightarrow> \<not> isPathValid chans amount q) \<Longrightarrow>
   distinct (bfs_loop chans e amount visited queue)"
proof (induction chans e amount visited queue rule: bfs_loop.induct)
  case (1 chans e amount visited)
  then show ?case by simp
next
  case (2 chans e amount visited path queue)
  let ?I = "\<lambda>visited q. q \<noteq> [] \<and> distinct (butlast q) \<and> set (butlast q) \<subseteq> visited \<and>
      (e \<in> set (butlast q) \<longrightarrow> \<not> isPathValid chans amount q)"
  have hp: "?I visited path" and hq: "\<forall>q \<in> set queue. ?I visited q"
    using "2.prems" by simp_all
  then have ne: "path \<noteq> []" by simp
  then obtain xs x where px: "path = xs @ [x]"
    by (cases path rule: rev_cases) auto
  from hp have dxs: "distinct xs" and sxs: "set xs \<subseteq> visited"
    and exs: "e \<in> set xs \<Longrightarrow> \<not> isPathValid chans amount path"
    by (simp_all add: px)
  show ?case
  proof (cases "last path = e \<and> isPathValid chans amount path")
    case True
    with exs have "x \<notin> set xs" by (auto simp: px)
    with dxs have "distinct path" by (simp add: px)
    with True ne show ?thesis by (simp add: bfs_loop_return)
  next
    case ret: False
    show ?thesis
    proof (cases "last path \<in> visited")
      case True
      have eq: "bfs_loop chans e amount visited (path # queue) = bfs_loop chans e amount visited queue"
        using ne ret True by (rule bfs_loop_skip)
      from "2.IH"(3)[OF ne ret _ hq] True show ?thesis
        unfolding eq by simp
    next
      case False
      let ?visited' = "insert (last path) visited"
      let ?queue' = "queue @ map (\<lambda>neighbor. path @ [neighbor]) (neighbors chans amount (last path))"
      have eq: "bfs_loop chans e amount visited (path # queue) =
          bfs_loop chans e amount ?visited' ?queue'"
        using ne ret False by (rule bfs_loop_expand)
      from False sxs have "x \<notin> set xs" by (auto simp: px)
      with dxs have dp: "distinct path" by (simp add: px)
      have sub: "set path \<subseteq> ?visited'"
        using sxs by (auto simp: px)
      have inval: "\<not> isPathValid chans amount (path @ [w])" if "e \<in> set path" for w
      proof
        assume "isPathValid chans amount (path @ [w])"
        then have vp: "isPathValid chans amount path" by (rule isPathValid_snoc)
        from that have "e \<in> set xs \<or> e = last path" by (auto simp: px)
        with exs vp ret show False by blast
      qed
      have "\<forall>q \<in> set ?queue'. ?I ?visited' q"
        using hq dp sub inval by auto
      from "2.IH"(2)[OF ne ret False this] show ?thesis
        unfolding eq .
    qed
  qed
qed

subsection \<open>The validity check accepts eligible paths when channels are not parallel\<close>

lemma joins_pair_of: "joins a b c \<longleftrightarrow> pair_of c = (min a b, max a b)"
  by (auto simp: joins_def pair_of_def min_def max_def)

lemma find_joins_unique:
  assumes "no_parallel chans" and "c \<in> set chans" and "joins a b c"
  shows "find (joins a b) chans = Some c"
proof -
  obtain d where d: "find (joins a b) chans = Some d"
    using assms(2,3) by (cases "find (joins a b) chans") (auto simp: find_None_iff)
  then have "d \<in> set chans" and "joins a b d"
    by (auto simp: find_Some_iff)
  then have "pair_of d = pair_of c" using assms(3) by (simp add: joins_pair_of)
  moreover have "inj_on pair_of (set chans)"
    using assms(1) by (simp add: no_parallel_def distinct_map)
  ultimately have "d = c" using \<open>d \<in> set chans\<close> assms(2) by (auto dest: inj_onD)
  with d show ?thesis by simp
qed

lemma eligible_path_valid:
  "no_parallel chans \<Longrightarrow> eligible_path chans amount p \<Longrightarrow> isPathValid chans amount p"
proof (induction chans amount p rule: isPathValid.induct)
  case (3 chans amount node nxt rest)
  from "3.prems"(2) obtain c where c: "c \<in> set chans" "joins node nxt c" "capacity_ge c amount"
    by (auto simp: eligible_def)
  from find_joins_unique[OF "3.prems"(1) c(1,2)] c(3) "3.IH" "3.prems" show ?case by simp
qed simp_all

subsection \<open>Breadth-first order: the level invariant\<close>

lemma bfs_inv_level_up:
  assumes inv: "bfs_inv chans amount s e L visited queue"
    and none: "\<forall>q \<in> set queue. length q \<noteq> L"
  shows "bfs_inv chans amount s e (Suc L) visited queue"
proof -
  from inv have L: "0 < L"
    and qs: "\<forall>q \<in> set queue. route chans amount s q \<and> (length q = L \<or> length q = Suc L)"
    and srt: "sorted_wrt (\<lambda>a b. length a \<le> length b) queue"
    and clo: "\<forall>u \<in> visited. \<forall>w. eligible chans amount u w \<longrightarrow> w \<in> visited \<or> w \<in> last ` set queue"
    and e: "e \<notin> visited"
    and lt: "\<forall>p. route chans amount s p \<and> length p < L \<longrightarrow> last p \<in> visited"
    and eq: "\<forall>p. route chans amount s p \<and> length p = L \<longrightarrow>
          last p \<in> visited \<or> (\<exists>q \<in> set queue. length q = L \<and> last q = last p)"
    by (simp_all add: bfs_inv_def)
  have qs': "\<forall>q \<in> set queue. route chans amount s q \<and> (length q = Suc L \<or> length q = Suc (Suc L))"
    using qs none by auto
  have lt': "\<forall>p. route chans amount s p \<and> length p < Suc L \<longrightarrow> last p \<in> visited"
  proof (intro allI impI)
    fix p assume p: "route chans amount s p \<and> length p < Suc L"
    show "last p \<in> visited"
    proof (cases "length p < L")
      case True with lt p show ?thesis by blast
    next
      case False
      with p have "length p = L" by simp
      with eq p none show ?thesis by blast
    qed
  qed
  have eq': "\<forall>p. route chans amount s p \<and> length p = Suc L \<longrightarrow>
          last p \<in> visited \<or> (\<exists>q \<in> set queue. length q = Suc L \<and> last q = last p)"
  proof (intro allI impI)
    fix p assume p: "route chans amount s p \<and> length p = Suc L"
    with L have "1 < length p" by simp
    moreover from p have "route chans amount s p" by simp
    ultimately have b: "route chans amount s (butlast p)" and el: "eligible chans amount (last (butlast p)) (last p)"
      using route_butlast by blast+
    have "length (butlast p) < Suc L" using p by simp
    with lt' b have "last (butlast p) \<in> visited" by blast
    with clo el have "last p \<in> visited \<or> last p \<in> last ` set queue" by blast
    then show "last p \<in> visited \<or> (\<exists>q \<in> set queue. length q = Suc L \<and> last q = last p)"
      using qs' none qs by auto
  qed
  show ?thesis
    unfolding bfs_inv_def using qs' srt clo e lt' eq' by simp
qed

lemma bfs_inv_head_level:
  assumes inv: "bfs_inv chans amount s e L visited (h # queue)"
  shows "bfs_inv chans amount s e (length h) visited (h # queue)"
proof (cases "length h = L")
  case True
  with inv show ?thesis by simp
next
  case False
  from inv have h: "length h = L \<or> length h = Suc L"
    and srt: "sorted_wrt (\<lambda>a b. length a \<le> length b) (h # queue)"
    by (simp_all add: bfs_inv_def)
  with False have hl: "length h = Suc L" by simp
  with srt have "\<forall>q \<in> set (h # queue). length q \<noteq> L" by auto
  from bfs_inv_level_up[OF inv this] hl show ?thesis by simp
qed

lemma bfs_inv_skip:
  assumes inv: "bfs_inv chans amount s e L visited (h # queue)"
    and vis: "last h \<in> visited"
  shows "bfs_inv chans amount s e L visited queue"
proof -
  from inv have L: "0 < L"
    and qs: "\<forall>q \<in> set queue. route chans amount s q \<and> (length q = L \<or> length q = Suc L)"
    and srt: "sorted_wrt (\<lambda>a b. length a \<le> length b) queue"
    and clo: "\<forall>u \<in> visited. \<forall>w. eligible chans amount u w \<longrightarrow>
        w \<in> visited \<or> w \<in> last ` set (h # queue)"
    and e: "e \<notin> visited"
    and lt: "\<forall>p. route chans amount s p \<and> length p < L \<longrightarrow> last p \<in> visited"
    and eq: "\<forall>p. route chans amount s p \<and> length p = L \<longrightarrow>
          last p \<in> visited \<or> (\<exists>q \<in> set (h # queue). length q = L \<and> last q = last p)"
    by (simp_all add: bfs_inv_def)
  have clo': "\<forall>u \<in> visited. \<forall>w. eligible chans amount u w \<longrightarrow> w \<in> visited \<or> w \<in> last ` set queue"
    using clo vis by auto
  have eq': "\<forall>p. route chans amount s p \<and> length p = L \<longrightarrow>
          last p \<in> visited \<or> (\<exists>q \<in> set queue. length q = L \<and> last q = last p)"
    using eq vis by fastforce
  show ?thesis
    unfolding bfs_inv_def using L qs srt clo' e lt eq' by simp
qed

lemma bfs_inv_expand:
  assumes inv: "bfs_inv chans amount s e L visited (h # queue)"
    and len: "length h = L"
    and ne: "last h \<noteq> e"
  shows "bfs_inv chans amount s e L (insert (last h) visited)
           (queue @ map (\<lambda>neighbor. h @ [neighbor]) (neighbors chans amount (last h)))"
proof -
  let ?ext = "map (\<lambda>neighbor. h @ [neighbor]) (neighbors chans amount (last h))"
  from inv have L: "0 < L"
    and rh: "route chans amount s h"
    and qs: "\<forall>q \<in> set queue. route chans amount s q \<and> (length q = L \<or> length q = Suc L)"
    and srt: "sorted_wrt (\<lambda>a b. length a \<le> length b) queue"
    and clo: "\<forall>u \<in> visited. \<forall>w. eligible chans amount u w \<longrightarrow>
        w \<in> visited \<or> w \<in> last ` set (h # queue)"
    and e: "e \<notin> visited"
    and lt: "\<forall>p. route chans amount s p \<and> length p < L \<longrightarrow> last p \<in> visited"
    and eq: "\<forall>p. route chans amount s p \<and> length p = L \<longrightarrow>
          last p \<in> visited \<or> (\<exists>q \<in> set (h # queue). length q = L \<and> last q = last p)"
    by (simp_all add: bfs_inv_def)
  have ext: "\<forall>q \<in> set ?ext. route chans amount s q \<and> length q = Suc L"
    using rh len by (auto simp: neighbors_iff intro: route_snoc)
  have qs': "\<forall>q \<in> set (queue @ ?ext). route chans amount s q \<and> (length q = L \<or> length q = Suc L)"
    using qs ext by auto
  have srt': "sorted_wrt (\<lambda>a b. length a \<le> length b) (queue @ ?ext)"
    unfolding sorted_wrt_append using srt qs by (auto simp: sorted_wrt_map len)
  have clo': "\<forall>u \<in> insert (last h) visited. \<forall>w. eligible chans amount u w \<longrightarrow>
        w \<in> insert (last h) visited \<or> w \<in> last ` set (queue @ ?ext)"
  proof (intro ballI allI impI)
    fix u w assume u: "u \<in> insert (last h) visited" and el: "eligible chans amount u w"
    show "w \<in> insert (last h) visited \<or> w \<in> last ` set (queue @ ?ext)"
    proof (cases "u = last h")
      case True
      with el have "w \<in> set (neighbors chans amount (last h))" by (simp add: neighbors_iff)
      then have "h @ [w] \<in> set ?ext" by simp
      then have "last (h @ [w]) \<in> last ` set (queue @ ?ext)" by (intro imageI) simp
      then show ?thesis by simp
    next
      case False
      with u clo el have "w \<in> visited \<or> w \<in> last ` set (h # queue)" by blast
      then show ?thesis by auto
    qed
  qed
  have e': "e \<notin> insert (last h) visited" using e ne by simp
  have lt': "\<forall>p. route chans amount s p \<and> length p < L \<longrightarrow> last p \<in> insert (last h) visited"
    using lt by blast
  have eq': "\<forall>p. route chans amount s p \<and> length p = L \<longrightarrow>
          last p \<in> insert (last h) visited \<or>
          (\<exists>q \<in> set (queue @ ?ext). length q = L \<and> last q = last p)"
  proof (intro allI impI)
    fix p assume "route chans amount s p \<and> length p = L"
    with eq have "last p \<in> visited \<or> (\<exists>q \<in> set (h # queue). length q = L \<and> last q = last p)"
      by blast
    then show "last p \<in> insert (last h) visited \<or>
          (\<exists>q \<in> set (queue @ ?ext). length q = L \<and> last q = last p)"
      by auto
  qed
  show ?thesis
    unfolding bfs_inv_def using L qs' srt' clo' e' lt' eq' by simp
qed

lemma bfs_inv_empty:
  assumes inv: "bfs_inv chans amount s e L visited []"
  shows "route chans amount s p \<Longrightarrow> last p \<in> visited"
proof (induction p rule: rev_induct)
  case Nil
  then show ?case by (simp add: route_def)
next
  case (snoc x xs)
  from inv have L: "0 < L"
    and clo: "\<forall>u \<in> visited. \<forall>w. eligible chans amount u w \<longrightarrow> w \<in> visited"
    and lt: "\<forall>p. route chans amount s p \<and> length p < L \<longrightarrow> last p \<in> visited"
    and eq: "\<forall>p. route chans amount s p \<and> length p = L \<longrightarrow> last p \<in> visited"
    by (simp_all add: bfs_inv_def)
  show ?case
  proof (cases "xs = []")
    case True
    have "length (xs @ [x]) < L \<or> length (xs @ [x]) = L" using True L by auto
    with lt eq snoc.prems show ?thesis by blast
  next
    case False
    then have "1 < length (xs @ [x])" by (cases xs) simp_all
    from route_butlast[OF snoc.prems this]
    have "route chans amount s xs" and el: "eligible chans amount (last xs) x" by simp_all
    with snoc.IH have "last xs \<in> visited" by simp
    with clo el show ?thesis by auto
  qed
qed

lemma bfs_inv_initial: "bfs_inv chans amount s e 1 {} [[s]]"
proof -
  have "last p = s" if "route chans amount s p" and "length p = 1" for p
    using that by (cases p) (auto simp: route_def)
  moreover have "\<not> length p < 1" if "route chans amount s p" for p
    using that by (cases p) (auto simp: route_def)
  ultimately show ?thesis
    by (auto simp: bfs_inv_def route_def)
qed

lemma bfs_loop_shortest:
  assumes np: "no_parallel chans" and rp: "route chans amount s p" and lp: "last p = e"
  shows "bfs_inv chans amount s e L visited queue \<Longrightarrow>
    bfs_loop chans e amount visited queue \<noteq> [] \<and>
    length (bfs_loop chans e amount visited queue) \<le> length p"
  using np rp lp
proof (induction chans e amount visited queue arbitrary: L rule: bfs_loop.induct)
  case (1 chans e amount visited)
  from bfs_inv_empty[OF "1.prems"(1) "1.prems"(3)] "1.prems"(1,4) show ?case
    by (simp add: bfs_inv_def)
next
  case (2 chans e amount visited path queue)
  note np = "2.prems"(2) and rp = "2.prems"(3) and lp = "2.prems"(4)
  have inv: "bfs_inv chans amount s e (length path) visited (path # queue)"
    using "2.prems"(1) by (rule bfs_inv_head_level)
  then have rpath: "route chans amount s path" by (simp add: bfs_inv_def)
  then have ne: "path \<noteq> []" by (simp add: route_def)
  have valid: "isPathValid chans amount path"
    using np rpath by (simp add: eligible_path_valid route_def)
  show ?case
  proof (cases "last path = e")
    case True
    have "\<not> length p < length path"
    proof
      assume "length p < length path"
      with inv rp have "last p \<in> visited" by (simp add: bfs_inv_def)
      with inv lp show False by (simp add: bfs_inv_def)
    qed
    with ne True valid show ?thesis by (simp add: bfs_loop_return)
  next
    case False
    then have ret: "\<not> (last path = e \<and> isPathValid chans amount path)" by simp
    show ?thesis
    proof (cases "last path \<in> visited")
      case True
      have eq: "bfs_loop chans e amount visited (path # queue) = bfs_loop chans e amount visited queue"
        using ne ret True by (rule bfs_loop_skip)
      have "bfs_inv chans amount s e (length path) visited queue"
        using inv True by (rule bfs_inv_skip)
      from "2.IH"(3)[OF ne ret _ this np rp lp] True show ?thesis
        unfolding eq by simp
    next
      case unvisited: False
      let ?queue' = "queue @ map (\<lambda>neighbor. path @ [neighbor]) (neighbors chans amount (last path))"
      have eq: "bfs_loop chans e amount visited (path # queue) =
          bfs_loop chans e amount (insert (last path) visited) ?queue'"
        using ne ret unvisited by (rule bfs_loop_expand)
      have "bfs_inv chans amount s e (length path) (insert (last path) visited) ?queue'"
        using inv _ False by (rule bfs_inv_expand) simp
      from "2.IH"(2)[OF ne ret unvisited this np rp lp] show ?thesis
        unfolding eq .
    qed
  qed
qed

section \<open>Properties of the numbers\<close>

text \<open>
  The modelled rounding is the rounding of the exact result to a multiple of the unit
  in the last place: the result lies within half a unit of the exact value, and its
  multiplier has at most 53 bits.
\<close>

lemma ilog2_bounds: "0 < n \<Longrightarrow> 2 ^ ilog2 n \<le> n \<and> n < 2 ^ Suc (ilog2 n)"
proof (induction n rule: ilog2.induct)
  case (1 n)
  show ?case
  proof (cases "n < 2")
    case True
    with "1.prems" have "n = 1" by simp
    then show ?thesis by (subst (1 2) ilog2.simps) simp
  next
    case False
    then have pos: "0 < n div 2" by simp
    from "1.IH"[OF False pos]
    have lo: "2 ^ ilog2 (n div 2) \<le> n div 2" and hi: "n div 2 < 2 ^ Suc (ilog2 (n div 2))"
      by simp_all
    have eq: "ilog2 n = Suc (ilog2 (n div 2))"
      using False by (subst ilog2.simps) simp
    from lo have "2 * 2 ^ ilog2 (n div 2) \<le> n" by linarith
    moreover from hi have "n < 2 * 2 ^ Suc (ilog2 (n div 2))" by linarith
    ultimately show ?thesis by (simp add: eq)
  qed
qed

lemma pow2_pos: "0 < pow2 k"
  by (simp add: pow2_def)

lemma pow2_diff: "pow2 (int m - int n) = 2 ^ m / 2 ^ n"
proof (cases "n \<le> m")
  case True
  then have "pow2 (int m - int n) = 2 ^ (m - n)"
    by (simp add: pow2_def nat_diff_distrib')
  with True show ?thesis by (simp add: power_diff)
next
  case False
  then have "pow2 (int m - int n) = 1 / 2 ^ (n - m)"
    by (simp add: pow2_def nat_diff_distrib')
  also have "\<dots> = 2 ^ m / 2 ^ n"
    using False by (simp add: power_diff field_simps)
  finally show ?thesis .
qed

lemma pow2_Suc: "pow2 (k + 1) = 2 * pow2 k"
proof (cases "0 \<le> k")
  case True
  then show ?thesis by (simp add: pow2_def nat_add_distrib)
next
  case False
  then have "nat (- k) = Suc (nat (- (k + 1)))" by simp
  with False show ?thesis by (simp add: pow2_def)
qed

lemma quotient_exponent_bounds:
  assumes a: "0 < a" and b: "0 < b"
  shows "pow2 (quotient_exponent a b) \<le> of_int a / of_int b \<and>
         of_int a / of_int b < pow2 (quotient_exponent a b + 1)"
proof -
  let ?la = "ilog2 a" and ?lb = "ilog2 b"
  from ilog2_bounds[OF a] have a1: "(2::rat) ^ ?la \<le> of_int a" and a2: "of_int a < (2::rat) ^ Suc ?la"
    by (metis of_int_le_iff of_int_numeral of_int_power, metis of_int_less_iff of_int_numeral of_int_power)
  from ilog2_bounds[OF b] have b1: "(2::rat) ^ ?lb \<le> of_int b" and b2: "of_int b < (2::rat) ^ Suc ?lb"
    by (metis of_int_le_iff of_int_numeral of_int_power, metis of_int_less_iff of_int_numeral of_int_power)
  have bpos: "(0::rat) < of_int b" using b by simp
  have apos: "(0::rat) < of_int a" using a by simp
  show ?thesis
  proof (cases "a * 2 ^ ?lb < b * 2 ^ ?la")
    case True
    then have e: "quotient_exponent a b = int ?la - int ?lb - 1"
      by (simp add: quotient_exponent_def Let_def)
    from True have "(of_int (a * 2 ^ ?lb) :: rat) < of_int (b * 2 ^ ?la)"
      by (simp only: of_int_less_iff)
    then have up: "(of_int a :: rat) * 2 ^ ?lb < of_int b * 2 ^ ?la" by simp
    have "of_int a / of_int b < (2::rat) ^ ?la / 2 ^ ?lb"
      using up bpos by (simp add: field_simps)
    then have hi: "of_int a / of_int b < pow2 (quotient_exponent a b + 1)"
      by (simp add: e pow2_diff)
    have "(2::rat) ^ ?la / 2 ^ Suc ?lb < of_int a / of_int b"
    proof -
      have "(2::rat) ^ ?la * of_int b < of_int a * 2 ^ Suc ?lb"
        using a1 b2 bpos by (intro mult_le_less_imp_less) simp_all
      then show ?thesis using bpos by (simp add: field_simps)
    qed
    moreover have "pow2 (quotient_exponent a b) = (2::rat) ^ ?la / 2 ^ Suc ?lb"
    proof -
      have "quotient_exponent a b = int ?la - int (Suc ?lb)" by (simp add: e)
      then show ?thesis by (simp only: pow2_diff)
    qed
    ultimately show ?thesis using hi by simp
  next
    case False
    then have e: "quotient_exponent a b = int ?la - int ?lb"
      by (simp add: quotient_exponent_def Let_def)
    from False have "b * 2 ^ ?la \<le> a * 2 ^ ?lb" by simp
    then have "(of_int (b * 2 ^ ?la) :: rat) \<le> of_int (a * 2 ^ ?lb)"
      by (simp only: of_int_le_iff)
    then have "(of_int b :: rat) * 2 ^ ?la \<le> of_int a * 2 ^ ?lb" by simp
    then have lo: "(2::rat) ^ ?la / 2 ^ ?lb \<le> of_int a / of_int b"
      using bpos by (simp add: field_simps)
    have "of_int a / of_int b < (2::rat) ^ Suc ?la / 2 ^ ?lb"
    proof -
      have "of_int a * (2::rat) ^ ?lb < 2 ^ Suc ?la * of_int b"
        using a2 b1 apos by (intro mult_less_le_imp_less) simp_all
      then show ?thesis using bpos by (simp add: field_simps)
    qed
    then have "of_int a / of_int b < 2 * pow2 (quotient_exponent a b)"
      by (simp add: e pow2_diff)
    with lo show ?thesis by (simp add: e pow2_diff pow2_Suc)
  qed
qed

lemma round_half_even_near: "\<bar>of_int (round_half_even y) - y\<bar> \<le> 1 / 2"
proof -
  define r where "r = y - of_int \<lfloor>y\<rfloor>"
  have r: "0 \<le> r" "r < 1" unfolding r_def by linarith+
  have y: "y = of_int \<lfloor>y\<rfloor> + r" by (simp add: r_def)
  consider "r < 1 / 2" | "1 / 2 < r" | "r = 1 / 2" by linarith
  then show ?thesis
  proof cases
    case 1
    then have "round_half_even y = \<lfloor>y\<rfloor>"
      by (simp add: round_half_even_def Let_def r_def)
    with 1 r show ?thesis by (simp add: r_def)
  next
    case 2
    then have "round_half_even y = \<lfloor>y\<rfloor> + 1"
      by (simp add: round_half_even_def Let_def r_def)
    then have "of_int (round_half_even y) - y = 1 - r" by (simp add: r_def)
    with 2 r show ?thesis by simp
  next
    case 3
    then have "round_half_even y = \<lfloor>y\<rfloor> \<or> round_half_even y = \<lfloor>y\<rfloor> + 1"
      by (simp add: round_half_even_def Let_def r_def)
    then have "of_int (round_half_even y) - y = - r \<or> of_int (round_half_even y) - y = 1 - r"
      by (auto simp: r_def)
    with 3 show ?thesis by auto
  qed
qed

lemma pow2_add: "pow2 (k + int n) = 2 ^ n * pow2 k"
proof (induction n)
  case 0
  show ?case by simp
next
  case (Suc n)
  have "k + int (Suc n) = k + int n + 1" by simp
  then have "pow2 (k + int (Suc n)) = pow2 (k + int n + 1)" by (rule arg_cong)
  also have "\<dots> = 2 * pow2 (k + int n)" by (rule pow2_Suc)
  finally show ?case by (simp add: Suc)
qed

lemma round_half_even_range: "\<lfloor>y\<rfloor> \<le> round_half_even y \<and> round_half_even y \<le> \<lfloor>y\<rfloor> + 1"
  by (simp add: round_half_even_def Let_def)


lemma pow2_mono: "k \<le> l \<Longrightarrow> pow2 k \<le> pow2 l"
proof -
  assume "k \<le> l"
  then have "l = k + int (nat (l - k))" by simp
  then have "pow2 l = pow2 (k + int (nat (l - k)))" by (rule arg_cong)
  then have "pow2 l = 2 ^ nat (l - k) * pow2 k" by (simp only: pow2_add)
  moreover have "(1::rat) \<le> 2 ^ nat (l - k)" by simp
  ultimately show ?thesis using pow2_pos[of k] by (simp add: mult_le_cancel_right1)
qed

lemma pow2_ge_one: "0 \<le> k \<Longrightarrow> 1 \<le> pow2 k"
  by (simp add: pow2_def)

text \<open>The binade of a non-zero rational, through its normal form.\<close>

lemma double_unit_cases:
  assumes x: "x \<noteq> 0"
  obtains e where "pow2 e \<le> \<bar>x\<bar>" and "\<bar>x\<bar> < pow2 (e + 1)"
    and "double_unit x = pow2 (max (e - 52) (- 1074))"
proof -
  obtain a b where q: "quotient_of \<bar>x\<bar> = (a, b)" by (cases "quotient_of \<bar>x\<bar>")
  then have b: "0 < b" by (rule quotient_of_denom_pos)
  from q have eq: "\<bar>x\<bar> = of_int a / of_int b" by (rule quotient_of_div)
  have "0 < \<bar>x\<bar>" using x by simp
  then have "(0::rat) < of_int a / of_int b" using eq by simp
  then have a: "0 < a" using b by (simp add: zero_less_divide_iff)
  from quotient_exponent_bounds[OF a b]
  have "pow2 (quotient_exponent a b) \<le> \<bar>x\<bar>" and "\<bar>x\<bar> < pow2 (quotient_exponent a b + 1)"
    by (simp_all add: eq)
  moreover have "double_unit x = pow2 (max (quotient_exponent a b - 52) (- 1074))"
    by (simp add: double_unit_def q)
  ultimately show ?thesis by (rule that)
qed

lemma double_unit_pos: "x \<noteq> 0 \<Longrightarrow> 0 < double_unit x"
  by (rule double_unit_cases[of x]) (simp_all add: pow2_pos)

lemma double_unit_le:
  assumes x: "x \<noteq> 0"
  shows "double_unit x \<le> max (\<bar>x\<bar> / 2 ^ 52) (1 / 2 ^ 1074)"
proof (rule double_unit_cases[OF x])
  fix e
  assume lo: "pow2 e \<le> \<bar>x\<bar>" and u: "double_unit x = pow2 (max (e - 52) (- 1074))"
  have "e = e - 52 + int 52" by simp
  then have "pow2 e = pow2 (e - 52 + int 52)" by (rule arg_cong)
  then have "pow2 e = 2 ^ 52 * pow2 (e - 52)" by (simp only: pow2_add)
  with lo have "2 ^ 52 * pow2 (e - 52) \<le> \<bar>x\<bar>" by simp
  then have a: "pow2 (e - 52) \<le> \<bar>x\<bar> / 2 ^ 52" by (simp add: pos_le_divide_eq mult.commute)
  have b: "pow2 (- 1074) = 1 / 2 ^ 1074" by (simp add: pow2_def)
  show ?thesis
  proof (cases "- 1074 \<le> e - 52")
    case True
    then have "max (e - 52) (- 1074) = e - 52" by simp
    then have "double_unit x = pow2 (e - 52)" by (simp only: u)
    with a show ?thesis by (simp add: le_max_iff_disj)
  next
    case False
    then have "max (e - 52) (- 1074) = - 1074" by simp
    then have "double_unit x = pow2 (- 1074)" by (simp only: u)
    with b show ?thesis by (simp add: le_max_iff_disj)
  qed
qed

lemma round_to_double_near:
  "x \<noteq> 0 \<Longrightarrow> \<bar>round_to_double x - x\<bar> \<le> double_unit x / 2"
proof -
  assume x: "x \<noteq> 0"
  define u where "u = double_unit x"
  define m where "m = round_half_even (\<bar>x\<bar> / u)"
  have u: "0 < u" unfolding u_def using x by (rule double_unit_pos)
  have r: "round_to_double x = sgn x * of_int m * u"
    using x by (simp add: round_to_double_def m_def u_def)
  have "x = sgn x * (\<bar>x\<bar> / u) * u" using u by (simp add: sgn_mult_abs)
  then have "round_to_double x - x = sgn x * (of_int m - \<bar>x\<bar> / u) * u"
    unfolding r by (simp add: algebra_simps)
  then have "\<bar>round_to_double x - x\<bar> = \<bar>of_int m - \<bar>x\<bar> / u\<bar> * u"
    using u x by (simp add: abs_mult abs_sgn_eq)
  also have "\<dots> \<le> 1 / 2 * u"
    unfolding m_def using round_half_even_near[of "\<bar>x\<bar> / u"] u
    by (intro mult_right_mono) simp_all
  finally show ?thesis by (simp add: u_def)
qed

lemma round_to_double_nonneg: "0 \<le> x \<Longrightarrow> 0 \<le> round_to_double x"
proof (cases "x = 0")
  case True
  then show ?thesis by (simp add: round_to_double_def)
next
  case False
  assume "0 \<le> x"
  with False have x: "0 < x" by simp
  have u: "0 < double_unit x" using False by (rule double_unit_pos)
  then have "0 \<le> \<bar>x\<bar> / double_unit x" by simp
  then have "0 \<le> \<lfloor>\<bar>x\<bar> / double_unit x\<rfloor>" by simp
  then have "0 \<le> round_half_even (\<bar>x\<bar> / double_unit x)"
    using round_half_even_range[of "\<bar>x\<bar> / double_unit x"] by linarith
  with x u show ?thesis by (simp add: round_to_double_def)
qed

text \<open>A double below one is at most \<open>1 - 2^-53\<close>.\<close>

lemma double_below_one:
  assumes d: "is_double x" and x0: "0 \<le> x" and x1: "x < 1"
  shows "x \<le> 1 - 1 / 2 ^ 53"
proof (cases "x = 0")
  case True
  then show ?thesis by simp
next
  case False
  with x0 have pos: "0 < x" by simp
  show ?thesis
  proof (rule double_unit_cases[OF False])
    fix e
    assume lo: "pow2 e \<le> \<bar>x\<bar>" and hi: "\<bar>x\<bar> < pow2 (e + 1)"
      and u: "double_unit x = pow2 (max (e - 52) (- 1074))"
    define k where "k = max (e - 52) (- 1074)"
    define m where "m = round_half_even (\<bar>x\<bar> / pow2 k)"
    have "e < 0"
    proof (rule ccontr)
      assume "\<not> e < 0"
      then have "1 \<le> pow2 e" by (simp add: pow2_ge_one)
      with lo x1 pos show False by simp
    qed
    then have k53: "k \<le> - 53" by (simp add: k_def)
    have upos: "0 < pow2 k" by (rule pow2_pos)
    have fixpt: "x = of_int m * pow2 k"
      using d pos by (simp add: is_double_def round_to_double_def u m_def k_def)
    have "e + 1 \<le> k + int 53" by (simp add: k_def)
    then have "pow2 (e + 1) \<le> pow2 (k + int 53)" by (rule pow2_mono)
    then have "pow2 (e + 1) \<le> 2 ^ 53 * pow2 k" by (simp only: pow2_add)
    moreover from hi pos have "of_int m * pow2 k < pow2 (e + 1)" unfolding fixpt[symmetric] by simp
    ultimately have "of_int m * pow2 k < 2 ^ 53 * pow2 k" by (rule less_le_trans[rotated])
    then have "(of_int m :: rat) < 2 ^ 53" using upos by (simp only: mult_less_cancel_right_pos)
    then have "m < 2 ^ 53" by (metis of_int_less_iff of_int_numeral of_int_power)
    then have "m \<le> 2 ^ 53 - 1" by simp
    then have "(of_int m :: rat) \<le> of_int (2 ^ 53 - 1)" by (simp only: of_int_le_iff)
    then have m: "(of_int m :: rat) \<le> 2 ^ 53 - 1" by simp
    have "pow2 k \<le> pow2 (- 53)" using k53 by (rule pow2_mono)
    then have small: "pow2 k \<le> 1 / 2 ^ 53" by (simp add: pow2_def)
    have m0: "(0::rat) \<le> of_int m"
    proof -
      have "0 < of_int m * pow2 k" using pos fixpt by simp
      then show ?thesis using upos by (simp add: zero_less_mult_iff)
    qed
    have "x \<le> (2 ^ 53 - 1) * pow2 k"
      unfolding fixpt using m upos by (intro mult_right_mono) simp_all
    also have "\<dots> \<le> (2 ^ 53 - 1) * (1 / 2 ^ 53)"
      using small by (intro mult_left_mono) simp_all
    also have "\<dots> = 1 - 1 / 2 ^ 53" by simp
    finally show ?thesis .
  qed
qed

text \<open>The product with the table length stays below the length.\<close>

lemma number_mul_12:
  assumes d: "is_double r" and r0: "0 \<le> r" and r1: "r < 1"
  shows "0 \<le> number_mul r 12 \<and> number_mul r 12 < 12"
proof -
  define y where "y = r * 12"
  have y0: "0 \<le> y" using r0 by (simp add: y_def)
  have "r \<le> 1 - 1 / 2 ^ 53" using d r0 r1 by (rule double_below_one)
  then have yb: "y \<le> 12 - 12 / 2 ^ 53" by (simp add: y_def)
  have nn: "0 \<le> round_to_double y" using y0 by (rule round_to_double_nonneg)
  have "round_to_double y < 12"
  proof (cases "y = 0")
    case True
    then show ?thesis by (simp add: round_to_double_def)
  next
    case False
    from round_to_double_near[OF False]
    have "round_to_double y \<le> y + double_unit y / 2" by linarith
    moreover from double_unit_le[OF False] y0
    have "double_unit y \<le> max (y / 2 ^ 52) (1 / 2 ^ 1074)" by simp
    ultimately have "round_to_double y \<le> y + y / 2 ^ 53 \<or> round_to_double y \<le> y + 1 / 2 ^ 1075"
      by (auto simp: le_max_iff_disj)
    then show ?thesis
    proof
      assume "round_to_double y \<le> y + y / 2 ^ 53"
      also have "y + y / 2 ^ 53 = y * (1 + 1 / 2 ^ 53)" by (simp add: algebra_simps)
      also have "\<dots> \<le> (12 - 12 / 2 ^ 53) * (1 + 1 / 2 ^ 53)"
        using yb by (intro mult_right_mono) simp_all
      also have "\<dots> < 12" by simp
      finally show ?thesis .
    next
      assume "round_to_double y \<le> y + 1 / 2 ^ 1075"
      also have "\<dots> \<le> 12 - 12 / 2 ^ 53 + 1 / 2 ^ 1075" using yb by simp
      also have "\<dots> < 12" by simp
      finally show ?thesis .
    qed
  qed
  with nn show ?thesis by (simp add: number_mul_def y_def)
qed

lemma round_to_double_significand:
  assumes x: "x \<noteq> 0"
  shows "\<exists>m. \<bar>round_to_double x\<bar> = of_int m * double_unit x \<and> 0 \<le> m \<and> m \<le> 2 ^ 53"
proof (rule double_unit_cases[OF x])
  fix e
  assume hi: "\<bar>x\<bar> < pow2 (e + 1)" and u: "double_unit x = pow2 (max (e - 52) (- 1074))"
  define k where "k = max (e - 52) (- 1074)"
  define m where "m = round_half_even (\<bar>x\<bar> / pow2 k)"
  have upos: "0 < pow2 k" by (rule pow2_pos)
  have "e + 1 \<le> k + int 53" by (simp add: k_def)
  then have "pow2 (e + 1) \<le> pow2 (k + int 53)" by (rule pow2_mono)
  then have "pow2 (e + 1) \<le> 2 ^ 53 * pow2 k" by (simp only: pow2_add)
  with hi have "\<bar>x\<bar> < 2 ^ 53 * pow2 k" by simp
  then have q: "\<bar>x\<bar> / pow2 k < 2 ^ 53" using upos by (simp add: pos_divide_less_eq)
  have q0: "0 \<le> \<bar>x\<bar> / pow2 k" using upos by simp
  from q have "\<lfloor>\<bar>x\<bar> / pow2 k\<rfloor> < (2::int) ^ 53" by (simp add: floor_less_iff)
  moreover from q0 have "0 \<le> \<lfloor>\<bar>x\<bar> / pow2 k\<rfloor>" by simp
  ultimately have m: "0 \<le> m" "m \<le> 2 ^ 53"
    unfolding m_def using round_half_even_range[of "\<bar>x\<bar> / pow2 k"] by linarith+
  have "round_to_double x = sgn x * of_int m * pow2 k"
    using x by (simp add: round_to_double_def u m_def k_def)
  then have "\<bar>round_to_double x\<bar> = of_int m * pow2 k"
    using x m(1) upos by (simp add: abs_mult abs_sgn_eq)
  with m show ?thesis unfolding u k_def by blast
qed

section \<open>Properties of the generator\<close>

lemma generateCapacity_in:
  assumes "is_double r" and "0 \<le> r" and "r < 1"
  shows "\<exists>v \<in> set capacities. generateCapacity r = Some v"
proof -
  have len: "length capacities = 12" by (simp add: capacities_def)
  from number_mul_12[OF assms] have p: "0 \<le> number_mul r 12" "number_mul r 12 < 12" by simp_all
  have lo: "0 \<le> \<lfloor>number_mul r 12\<rfloor>" using p(1) by simp
  have hi: "\<lfloor>number_mul r 12\<rfloor> < 12" using p(2) by (simp add: floor_less_iff)
  from lo hi have "nat \<lfloor>number_mul r 12\<rfloor> < 12" by linarith
  then have "nat \<lfloor>number_mul r 12\<rfloor> < length capacities" by (simp add: len)
  then have "capacities ! nat \<lfloor>number_mul r 12\<rfloor> \<in> set capacities" by (rule nth_mem)
  with lo hi show ?thesis
    by (simp add: generateCapacity_def len Let_def)
qed

lemma channel_loop_none:
  "\<forall>k. 0 \<le> rng k \<Longrightarrow> fst (channel_loop numNodes 0 rng i j k chans) = chans"
proof (induction numNodes "0::rat" rng i j k chans rule: channel_loop.induct)
  case (1 numNodes rng i j k chans)
  have "\<not> rng k < 0" using "1.prems" by (simp add: not_less)
  with 1 show ?case
    by (subst channel_loop.simps) simp
qed

lemma pair_loop_none:
  "\<forall>k. 0 \<le> rng k \<Longrightarrow> fst (pair_loop numNodes 0 rng i k chans) = chans"
proof (induction numNodes "0::rat" rng i k chans rule: pair_loop.induct)
  case (1 numNodes rng i k chans)
  show ?case
  proof (cases "i < numNodes")
    case True
    obtain chans' k' where r: "channel_loop numNodes 0 rng i (i + 1) k chans = (chans', k')"
      by (cases "channel_loop numNodes 0 rng i (i + 1) k chans")
    then have "chans' = chans" using channel_loop_none[OF "1.prems", of numNodes i "i + 1" k chans] by simp
    with "1.hyps"[OF True r[symmetric] "1.prems"] True r show ?thesis
      by (subst pair_loop.simps) simp
  next
    case False
    then show ?thesis by (subst pair_loop.simps) simp
  qed
qed

lemma channel_loop_all:
  "\<forall>k. rng k < 1 \<Longrightarrow>
   length (fst (channel_loop numNodes 1 rng i j k chans)) = length chans + nat (numNodes - j)"
proof (induction numNodes "1::rat" rng i j k chans rule: channel_loop.induct)
  case (1 numNodes rng i j k chans)
  have r: "rng k < 1" using "1.prems" by simp
  show ?case
  proof (cases "j < numNodes")
    case True
    then have "Suc (nat (numNodes - (j + 1))) = nat (numNodes - j)" by linarith
    with "1.hyps"(1)[OF True r "1.prems"] True r show ?thesis
      by (subst channel_loop.simps) simp
  next
    case False
    then show ?thesis by (subst channel_loop.simps) simp
  qed
qed

lemma triangle_step: "0 \<le> (m::int) \<Longrightarrow> nat m + nat (m * (m - 1) div 2) = nat ((m + 1) * m div 2)"
proof -
  assume m: "0 \<le> m"
  have "m + m * (m - 1) div 2 = (2 * m + m * (m - 1)) div 2" by simp
  also have "2 * m + m * (m - 1) = (m + 1) * m" by (simp add: algebra_simps)
  finally have e: "m + m * (m - 1) div 2 = (m + 1) * m div 2" .
  have "0 \<le> m * (m - 1) div 2"
  proof (cases "m = 0")
    case True then show ?thesis by simp
  next
    case False
    with m have "0 \<le> m * (m - 1)" by simp
    then show ?thesis by simp
  qed
  with m e show ?thesis by (simp add: nat_add_distrib[symmetric])
qed

lemma pair_loop_all:
  "\<forall>k. rng k < 1 \<Longrightarrow> i \<le> numNodes \<Longrightarrow>
   length (fst (pair_loop numNodes 1 rng i k chans)) =
     length chans + nat ((numNodes - i) * (numNodes - i - 1) div 2)"
proof (induction numNodes "1::rat" rng i k chans rule: pair_loop.induct)
  case (1 numNodes rng i k chans)
  show ?case
  proof (cases "i < numNodes")
    case True
    obtain chans' k' where r: "channel_loop numNodes 1 rng i (i + 1) k chans = (chans', k')"
      by (cases "channel_loop numNodes 1 rng i (i + 1) k chans")
    have len: "length chans' = length chans + nat (numNodes - (i + 1))"
      using channel_loop_all[OF "1.prems"(1), of numNodes i "i + 1" k chans] r by simp
    from True have le: "i + 1 \<le> numNodes" by simp
    have "length (fst (pair_loop numNodes 1 rng (i + 1) k' chans')) =
        length chans' + nat ((numNodes - (i + 1)) * (numNodes - (i + 1) - 1) div 2)"
      using "1.hyps"[OF True r[symmetric] "1.prems"(1) le] .
    also have "\<dots> = length chans + (nat (numNodes - (i + 1)) +
        nat ((numNodes - (i + 1)) * (numNodes - (i + 1) - 1) div 2))"
      using len by simp
    also have "nat (numNodes - (i + 1)) + nat ((numNodes - (i + 1)) * (numNodes - (i + 1) - 1) div 2) =
        nat ((numNodes - (i + 1) + 1) * (numNodes - (i + 1)) div 2)"
      using le by (intro triangle_step) simp
    also have "(numNodes - (i + 1) + 1) * (numNodes - (i + 1)) = (numNodes - i) * (numNodes - i - 1)"
      by (simp add: algebra_simps)
    finally show ?thesis
      using True r by (subst pair_loop.simps) simp
  next
    case False
    with "1.prems"(2) have "i = numNodes" by simp
    then show ?thesis by (subst pair_loop.simps) simp
  qed
qed

lemma node_loop_length:
  "length (fst (node_loop numNodes rng i k ns)) = length ns + nat (numNodes - i)"
proof (induction numNodes rng i k ns rule: node_loop.induct)
  case (1 numNodes rng i k ns)
  show ?case
  proof (cases "i < numNodes")
    case True
    then have "Suc (nat (numNodes - (i + 1))) = nat (numNodes - i)" by linarith
    with "1.IH"[OF True] True show ?thesis
      by (subst node_loop.simps) simp
  next
    case False
    then show ?thesis by (subst node_loop.simps) simp
  qed
qed

lemma node_loop_labels:
  "0 \<le> i \<Longrightarrow> length ns = nat i \<Longrightarrow>
   \<forall>m < length ns. label (ns ! m) = node_label (int m) \<Longrightarrow>
   \<forall>m < length (fst (node_loop numNodes rng i k ns)).
      label (fst (node_loop numNodes rng i k ns) ! m) = node_label (int m)"
proof (induction numNodes rng i k ns rule: node_loop.induct)
  case (1 numNodes rng i k ns)
  show ?case
  proof (cases "i < numNodes")
    case True
    let ?ns' = "ns @ [\<lparr>label = node_label i, left_px = number_mul (rng k) 760,
        top_px = number_mul (rng (k + 1)) 560\<rparr>]"
    have a: "0 \<le> i + 1" using "1.prems"(1) by simp
    have b: "length ?ns' = nat (i + 1)" using "1.prems"(1,2) by simp
    have c: "\<forall>m < length ?ns'. label (?ns' ! m) = node_label (int m)"
    proof (intro allI impI)
      fix m assume "m < length ?ns'"
      then have "m < length ns \<or> m = length ns" by auto
      then show "label (?ns' ! m) = node_label (int m)"
        using "1.prems"(1,2,3) by (auto simp: nth_append)
    qed
    from "1.IH"[OF True a b c] True show ?thesis
      by (subst (1 2) node_loop.simps) simp
  next
    case False
    with "1.prems"(3) show ?thesis by (subst (1 2) node_loop.simps) simp
  qed
qed

lemma gen_inv_push:
  assumes inv: "gen_inv numNodes i j chans" and i: "0 \<le> i" "i < j" and j: "j < numNodes"
    and r: "is_double r" "0 \<le> r" "r < 1"
  shows "gen_inv numNodes i (j + 1) (chans @ [\<lparr>start = i, endp = j, capacity = generateCapacity r\<rparr>])"
proof -
  let ?c = "\<lparr>start = i, endp = j, capacity = generateCapacity r\<rparr>"
  have key: "pair_of ?c = (i, j)" using i by (simp add: pair_of_def)
  have "\<forall>d \<in> set chans. pair_of d \<noteq> (i, j)"
    using inv by (auto simp: gen_inv_def pair_of_def)
  then have "(i, j) \<notin> pair_of ` set chans" by (auto simp: image_iff)
  then have "pair_of ?c \<notin> set (map pair_of chans)" by (simp add: key)
  with inv have d: "distinct (map pair_of (chans @ [?c]))" by (simp add: gen_inv_def)
  have cap: "\<exists>v \<in> set capacities. capacity ?c = Some v"
    using generateCapacity_in[OF r] by simp
  have old: "\<forall>c \<in> set chans. 0 \<le> start c \<and> start c < endp c \<and> endp c < numNodes \<and>
        (start c < i \<or> (start c = i \<and> endp c < j + 1)) \<and>
        (\<exists>v \<in> set capacities. capacity c = Some v)"
    using inv by (auto simp: gen_inv_def)
  show ?thesis
    unfolding gen_inv_def using d cap old i j by simp
qed

lemma channel_loop_inv:
  "\<forall>k. is_double (rng k) \<and> 0 \<le> rng k \<and> rng k < 1 \<Longrightarrow> gen_inv numNodes i j chans \<Longrightarrow> 0 \<le> i \<Longrightarrow> i < j \<Longrightarrow>
   gen_inv numNodes (i + 1) (i + 2) (fst (channel_loop numNodes p rng i j k chans))"
proof (induction numNodes p rng i j k chans rule: channel_loop.induct)
  case (1 numNodes p rng i j k chans)
  show ?case
  proof (cases "j < numNodes")
    case True
    show ?thesis
    proof (cases "rng k < p")
      case incl: True
      have "is_double (rng (k + 1))" and "0 \<le> rng (k + 1)" and "rng (k + 1) < 1"
        using "1.prems"(1) by simp_all
      from gen_inv_push[OF "1.prems"(2,3,4) True this]
      have "gen_inv numNodes i (j + 1)
          (chans @ [\<lparr>start = i, endp = j, capacity = generateCapacity (rng (k + 1))\<rparr>])" .
      from "1.IH"(1)[OF True incl "1.prems"(1) this "1.prems"(3)] "1.prems"(4) True incl
      show ?thesis by (subst channel_loop.simps) simp
    next
      case False
      have "gen_inv numNodes i (j + 1) chans"
        using "1.prems"(2) by (auto simp: gen_inv_def)
      from "1.IH"(2)[OF True False "1.prems"(1) this "1.prems"(3)] "1.prems"(4) True False
      show ?thesis by (subst channel_loop.simps) simp
    qed
  next
    case False
    have "gen_inv numNodes (i + 1) (i + 2) chans"
      using "1.prems"(2) by (auto simp: gen_inv_def)
    with False show ?thesis by (subst channel_loop.simps) simp
  qed
qed

lemma pair_loop_inv:
  "\<forall>k. is_double (rng k) \<and> 0 \<le> rng k \<and> rng k < 1 \<Longrightarrow> gen_inv numNodes i (i + 1) chans \<Longrightarrow> 0 \<le> i \<Longrightarrow>
   \<exists>i' j'. gen_inv numNodes i' j' (fst (pair_loop numNodes p rng i k chans))"
proof (induction numNodes p rng i k chans rule: pair_loop.induct)
  case (1 numNodes p rng i k chans)
  show ?case
  proof (cases "i < numNodes")
    case True
    obtain chans' k' where r: "channel_loop numNodes p rng i (i + 1) k chans = (chans', k')"
      by (cases "channel_loop numNodes p rng i (i + 1) k chans")
    have "i < i + 1" by simp
    from channel_loop_inv[OF "1.prems"(1,2,3) this, where p = p and k = k]
    have "gen_inv numNodes (i + 1) (i + 2) chans'"
      using r by simp
    then have "gen_inv numNodes (i + 1) (i + 1 + 1) chans'" by (simp add: add.assoc)
    from "1.IH"[OF True r[symmetric] "1.prems"(1) this] "1.prems"(3) True r
    show ?thesis by (subst pair_loop.simps) simp
  next
    case False
    with "1.prems"(2) show ?thesis by (subst pair_loop.simps) auto
  qed
qed

lemma generateNetwork_inv:
  assumes "\<forall>k. is_double (rng k) \<and> 0 \<le> rng k \<and> rng k < 1"
  shows "\<exists>i j. gen_inv numNodes i j (channels (generateNetwork numNodes p rng))"
proof -
  obtain ns k where n: "node_loop numNodes rng 0 0 [] = (ns, k)"
    by (cases "node_loop numNodes rng 0 0 []")
  obtain chans k' where c: "pair_loop numNodes p rng 0 k [] = (chans, k')"
    by (cases "pair_loop numNodes p rng 0 k []")
  have "gen_inv numNodes 0 (0 + 1) []" by (simp add: gen_inv_def)
  from pair_loop_inv[OF assms this, where p = p and k = k] c n show ?thesis
    by (simp add: generateNetwork_def)
qed

lemma generateNetwork_nodes:
  "length (nodes (generateNetwork numNodes p rng)) = nat numNodes"
proof -
  obtain ns k where n: "node_loop numNodes rng 0 0 [] = (ns, k)"
    by (cases "node_loop numNodes rng 0 0 []")
  obtain chans k' where c: "pair_loop numNodes p rng 0 k [] = (chans, k')"
    by (cases "pair_loop numNodes p rng 0 k []")
  from node_loop_length[of numNodes rng 0 0 "[]"] n c show ?thesis
    by (simp add: generateNetwork_def)
qed

section \<open>The claims\<close>

subsection \<open>The router\<close>

text \<open>
  C1: on a network that keeps the data model's invariant (at most one channel per
  unordered pair of nodes), for every source, target and amount, the search returns
  not-found (the empty array) if and only if no path of capacity-eligible channels leads
  from the source to the target. The amount need not be positive for this.
\<close>

theorem findPath_not_found_iff:
  assumes "no_parallel chans"
  shows "findPathWithCapacity chans s e amount = [] \<longleftrightarrow>
         \<not> (\<exists>p. route chans amount s p \<and> last p = e)"
proof
  assume nf: "findPathWithCapacity chans s e amount = []"
  show "\<not> (\<exists>p. route chans amount s p \<and> last p = e)"
  proof
    assume "\<exists>p. route chans amount s p \<and> last p = e"
    then obtain p where "route chans amount s p" and "last p = e" by blast
    from bfs_loop_shortest[OF assms this bfs_inv_initial] nf show False
      by (simp add: findPathWithCapacity_def)
  qed
next
  assume none: "\<not> (\<exists>p. route chans amount s p \<and> last p = e)"
  show "findPathWithCapacity chans s e amount = []"
  proof (rule ccontr)
    assume "findPathWithCapacity chans s e amount \<noteq> []"
    then have ne: "bfs_loop chans e amount {} [[s]] \<noteq> []"
      by (simp add: findPathWithCapacity_def)
    have "\<forall>q \<in> set [[s]]. route chans amount s q" by (simp add: route_def)
    from bfs_loop_route[OF this ne] none show False by blast
  qed
qed

theorem findPath_not_found_iff_witness:
  "no_parallel scenario \<and>
   findPathWithCapacity scenario 0 2 20000000 = [] \<and>
   \<not> (\<exists>p. route scenario 20000000 0 p \<and> last p = 2) \<and>
   findPathWithCapacity scenario 0 2 5000000 = [0, 1, 2] \<and>
   (\<exists>p. route scenario 5000000 0 p \<and> last p = 2)"
proof -
  have np: "no_parallel scenario"
    by (simp add: no_parallel_def scenario_def pair_of_def)
  have a: "findPathWithCapacity scenario 0 2 20000000 = []"
    by code_simp
  have b: "findPathWithCapacity scenario 0 2 5000000 = [0, 1, 2]"
    by code_simp
  from findPath_not_found_iff[OF np, of 0 2 20000000] findPath_not_found_iff[OF np, of 0 2 5000000]
    np a b show ?thesis by simp
qed

text \<open>
  Without the invariant the final validity check can reject the only eligible path: it
  looks up the first channel between two nodes, which may be a parallel one of lower
  capacity. The generator never produces such a list of channels.
\<close>

lemma parallel_channels_shadow:
  "findPathWithCapacity
     [\<lparr>start = 0, endp = 1, capacity = Some 5\<rparr>, \<lparr>start = 0, endp = 1, capacity = Some 10\<rparr>]
     0 1 10 = [] \<and>
   route [\<lparr>start = 0, endp = 1, capacity = Some 5\<rparr>, \<lparr>start = 0, endp = 1, capacity = Some 10\<rparr>]
     10 0 [0, 1]"
  by code_simp

text \<open>
  C2: on a network that keeps the invariant, a returned path has the least number of
  hops (its length less one) among all paths from the source to the target whose every
  channel has capacity at least the amount.
\<close>

theorem findPath_min_hops:
  assumes "no_parallel chans"
    and "findPathWithCapacity chans s e amount = r" and "r \<noteq> []"
    and "route chans amount s p" and "last p = e"
  shows "length r - 1 \<le> length p - 1"
  using bfs_loop_shortest[OF assms(1,4,5) bfs_inv_initial] assms(2)
  by (simp add: findPathWithCapacity_def diff_le_mono)

theorem findPath_min_hops_witness:
  "no_parallel detour \<and> findPathWithCapacity detour 0 2 10000000 = [0, 1, 2] \<and>
   route detour 10000000 0 [0, 3, 4, 2] \<and>
   length (findPathWithCapacity detour 0 2 10000000) - 1 \<le> length [0, 3, 4, 2::int] - 1"
proof -
  have np: "no_parallel detour"
    by (simp add: no_parallel_def detour_def pair_of_def)
  have r: "findPathWithCapacity detour 0 2 10000000 = [0, 1, 2]"
    by code_simp
  have p: "route detour 10000000 0 [0, 3, 4, 2]"
    by code_simp
  from findPath_min_hops[OF np refl _ p] r np p show ?thesis by simp
qed

text \<open>
  C3: a returned path starts at the source, ends at the target, and each two consecutive
  nodes of it are joined by a channel of the network with capacity at least the amount.
\<close>

theorem findPath_is_route:
  assumes "findPathWithCapacity chans s e amount = r" and "r \<noteq> []"
  shows "hd r = s \<and> last r = e \<and>
    (\<forall>i. Suc i < length r \<longrightarrow>
       (\<exists>c \<in> set chans. joins (r ! i) (r ! Suc i) c \<and> capacity_ge c amount))"
proof -
  have "\<forall>q \<in> set [[s]]. route chans amount s q" by (simp add: route_def)
  from bfs_loop_route[OF this, of e "{}"] assms
  have "route chans amount s r \<and> last r = e" by (simp add: findPathWithCapacity_def)
  then show ?thesis
    using eligible_path_nth[of chans amount r] by (simp add: route_def eligible_def)
qed

theorem findPath_is_route_witness:
  "findPathWithCapacity detour 0 4 20000000 = [0, 3, 4] \<and>
   hd [0, 3, 4::int] = 0 \<and> last [0, 3, 4::int] = 4 \<and>
   (\<exists>c \<in> set detour. joins 0 3 c \<and> capacity_ge c 20000000) \<and>
   (\<exists>c \<in> set detour. joins 3 4 c \<and> capacity_ge c 20000000)"
proof -
  have r: "findPathWithCapacity detour 0 4 20000000 = [0, 3, 4]"
    by code_simp
  have ne: "[0, 3, 4::int] \<noteq> []" by simp
  from findPath_is_route[OF r ne]
  have all: "\<forall>i. Suc i < length [0, 3, 4::int] \<longrightarrow>
       (\<exists>c \<in> set detour. joins ([0, 3, 4] ! i) ([0, 3, 4] ! Suc i) c \<and> capacity_ge c 20000000)"
    by blast
  from all[rule_format, of 0] all[rule_format, of 1] r show ?thesis by simp
qed

text \<open>
  C4: for every list of channels, source, target and amount, the result of the search
  has no repeated node.
\<close>

theorem findPath_distinct: "distinct (findPathWithCapacity chans s e amount)"
  unfolding findPathWithCapacity_def by (rule bfs_loop_distinct) simp

theorem findPath_distinct_witness:
  "distinct (findPathWithCapacity detour 0 2 20000000) \<and>
   findPathWithCapacity detour 0 2 20000000 = [0, 3, 4, 2]"
proof -
  have "findPathWithCapacity detour 0 2 20000000 = [0, 3, 4, 2]"
    by code_simp
  with findPath_distinct[of detour 0 2 20000000] show ?thesis by simp
qed

text \<open>
  C5, as stated (an out-of-range source or target is reported as an input-validation
  error, never as not-found), fails: the function validates nothing. Node 7 is not a
  node of the three-node scenario network, and the search from it returns not-found.
\<close>

theorem findPath_out_of_range_counterexample:
  "\<not> valid_node scenario_net 7 \<and>
   findPathWithCapacity (channels scenario_net) 7 2 5000000 = []"
proof -
  have "findPathWithCapacity scenario 7 2 5000000 = []"
    by code_simp
  then show ?thesis by (simp add: valid_node_def scenario_net_def)
qed

text \<open>
  C5 as amended: when all channels join valid nodes and the source or the target is
  out of range, the search reports no error; it returns not-found if the two differ and
  the single-node path if they are equal.
\<close>

theorem findPath_out_of_range:
  assumes wf: "\<forall>c \<in> set (channels net). valid_node net (start c) \<and> valid_node net (endp c)"
    and out: "\<not> valid_node net s \<or> \<not> valid_node net e"
  shows "findPathWithCapacity (channels net) s e amount = (if s = e then [s] else [])"
proof (cases "s = e")
  case True
  then show ?thesis by (simp add: findPathWithCapacity_def bfs_loop_return)
next
  case False
  have "findPathWithCapacity (channels net) s e amount = []"
  proof (rule ccontr)
    assume "findPathWithCapacity (channels net) s e amount \<noteq> []"
    then have ne: "bfs_loop (channels net) e amount {} [[s]] \<noteq> []"
      by (simp add: findPathWithCapacity_def)
    define r where "r = bfs_loop (channels net) e amount {} [[s]]"
    have "\<forall>q \<in> set [[s]]. route (channels net) amount s q" by (simp add: route_def)
    from bfs_loop_route[OF this ne]
    have r: "r \<noteq> []" "hd r = s" "eligible_path (channels net) amount r" "last r = e"
      by (simp_all add: route_def r_def)
    with False have "1 < length r" by (cases r) auto
    from eligible_path_endpoints[OF r(3) this] r
    have "s \<in> endpoints (channels net)" and "e \<in> endpoints (channels net)" by simp_all
    with wf have "valid_node net s" and "valid_node net e"
      by (auto simp: endpoints_def)
    with out show False by simp
  qed
  with False show ?thesis by simp
qed

theorem findPath_out_of_range_witness:
  "\<not> valid_node scenario_net 3 \<and>
   findPathWithCapacity (channels scenario_net) 0 3 5000000 = [] \<and>
   findPathWithCapacity (channels scenario_net) 3 3 5000000 = [3]"
proof -
  have wf: "\<forall>c \<in> set (channels scenario_net).
      valid_node scenario_net (start c) \<and> valid_node scenario_net (endp c)"
    by (simp add: scenario_net_def scenario_def valid_node_def)
  have out: "\<not> valid_node scenario_net 3"
    by (simp add: scenario_net_def valid_node_def)
  then have out': "\<not> valid_node scenario_net 0 \<or> \<not> valid_node scenario_net 3"
    and out'': "\<not> valid_node scenario_net 3 \<or> \<not> valid_node scenario_net 3"
    by simp_all
  from findPath_out_of_range[OF wf out', of 5000000] findPath_out_of_range[OF wf out'', of 5000000]
    out show ?thesis by simp
qed

text \<open>
  C9: called with source equal to target, on any channel list and any amount, the search
  returns (the loop is a total function) and its result is the single-node path.
\<close>

theorem findPath_same_node: "findPathWithCapacity chans s s amount = [s]"
  by (simp add: findPathWithCapacity_def bfs_loop_return)

subsection \<open>The generator\<close>

text \<open>
  C6: for a positive node count \<open>n\<close> and a random source with values in \<open>[0, 1)\<close>, the
  generated network has exactly \<open>n\<close> nodes, the node at index \<open>m\<close> carrying the label of
  \<open>m\<close>; with probability 0 it has no channel, with probability 1 it has
  \<open>n * (n - 1) / 2\<close> channels, and so 10 channels for five nodes.
\<close>

theorem generateNetwork_counts:
  assumes n: "0 < n" and rng: "\<forall>k. 0 \<le> rng k \<and> rng k < 1"
  shows "length (nodes (generateNetwork n p rng)) = nat n \<and>
         (\<forall>m < nat n. label (nodes (generateNetwork n p rng) ! m) = node_label (int m)) \<and>
         channels (generateNetwork n 0 rng) = [] \<and>
         int (length (channels (generateNetwork n 1 rng))) = n * (n - 1) div 2 \<and>
         length (channels (generateNetwork 5 1 rng)) = 10"
proof -
  obtain ns k where ns: "node_loop n rng 0 0 [] = (ns, k)"
    by (cases "node_loop n rng 0 0 []")
  have len: "length (nodes (generateNetwork n p rng)) = nat n"
    by (rule generateNetwork_nodes)
  have nodes_eq: "nodes (generateNetwork n p rng) = fst (node_loop n rng 0 0 [])"
    by (simp add: generateNetwork_def split: prod.splits)
  have labels: "\<forall>m < nat n. label (nodes (generateNetwork n p rng) ! m) = node_label (int m)"
    using node_loop_labels[of 0 "[]" n rng 0] len unfolding nodes_eq by simp
  have lo: "\<forall>k. 0 \<le> rng k" and hi: "\<forall>k. rng k < 1" using rng by simp_all
  obtain cs k' where cs: "pair_loop n 0 rng 0 k [] = (cs, k')"
    by (cases "pair_loop n 0 rng 0 k []")
  have none: "channels (generateNetwork n 0 rng) = []"
    using pair_loop_none[OF lo, of n 0 k "[]"] ns cs
    by (simp add: generateNetwork_def)
  have count: "length (channels (generateNetwork m 1 rng)) = nat (m * (m - 1) div 2)"
    if "0 \<le> m" for m
  proof -
    obtain ms j where ms: "node_loop m rng 0 0 [] = (ms, j)"
      by (cases "node_loop m rng 0 0 []")
    obtain ds j' where ds: "pair_loop m 1 rng 0 j [] = (ds, j')"
      by (cases "pair_loop m 1 rng 0 j []")
    from pair_loop_all[OF hi, of 0 m j "[]"] that ms ds show ?thesis
      by (simp add: generateNetwork_def)
  qed
  have "0 \<le> n * (n - 1) div 2" using n by simp
  with count[of n] n have all: "int (length (channels (generateNetwork n 1 rng))) = n * (n - 1) div 2"
    by simp
  have five: "length (channels (generateNetwork 5 1 rng)) = 10"
    using count[of 5] by simp
  from len labels none all five show ?thesis by blast
qed

theorem generateNetwork_counts_witness:
  "length (nodes (generateNetwork 5 (1 / 3) (\<lambda>k. 1 / 2))) = 5 \<and>
   map label (nodes (generateNetwork 5 (1 / 3) (\<lambda>k. 1 / 2))) = [''A'', ''B'', ''C'', ''D'', ''E''] \<and>
   channels (generateNetwork 5 0 (\<lambda>k. 1 / 2)) = [] \<and>
   length (channels (generateNetwork 5 1 (\<lambda>k. 1 / 2))) = 10"
proof -
  have rng: "\<forall>k::nat. (0::rat) \<le> 1 / 2 \<and> (1 / 2 :: rat) < 1" by simp
  have lab: "map label (nodes (generateNetwork 5 (1 / 3) (\<lambda>k. 1 / 2))) =
      [''A'', ''B'', ''C'', ''D'', ''E'']"
    by code_simp
  from generateNetwork_counts[of 5 "\<lambda>k. 1 / 2" "1 / 3", OF _ rng] lab show ?thesis by simp
qed

text \<open>
  C7: for a random source whose values are doubles in \<open>[0, 1)\<close>, every channel of a
  generated network joins two distinct valid node indices and has a capacity of the
  representative set, and no unordered pair of nodes carries more than one channel.
\<close>

theorem generateNetwork_channels_wf:
  assumes "\<forall>k. is_double (rng k) \<and> 0 \<le> rng k \<and> rng k < 1"
  shows "(\<forall>c \<in> set (channels (generateNetwork numNodes p rng)).
            start c \<noteq> endp c \<and>
            valid_node (generateNetwork numNodes p rng) (start c) \<and>
            valid_node (generateNetwork numNodes p rng) (endp c) \<and>
            (\<exists>v \<in> {5000000, 10000000, 20000000, 30000000, 40000000, 50000000, 60000000,
                    70000000, 80000000, 90000000, 100000000, 200000000}. capacity c = Some v)) \<and>
         no_parallel (channels (generateNetwork numNodes p rng))"
proof -
  let ?net = "generateNetwork numNodes p rng"
  from generateNetwork_inv[OF assms] obtain i j where inv: "gen_inv numNodes i j (channels ?net)"
    by blast
  have caps: "set capacities = {5000000, 10000000, 20000000, 30000000, 40000000, 50000000, 60000000,
                    70000000, 80000000, 90000000, 100000000, 200000000}"
    by (simp add: capacities_def)
  have len: "length (nodes ?net) = nat numNodes" by (rule generateNetwork_nodes)
  have "start c \<noteq> endp c \<and> valid_node ?net (start c) \<and> valid_node ?net (endp c) \<and>
        (\<exists>v \<in> set capacities. capacity c = Some v)" if "c \<in> set (channels ?net)" for c
  proof -
    from inv that have "0 \<le> start c" "start c < endp c" "endp c < numNodes"
      "\<exists>v \<in> set capacities. capacity c = Some v"
      by (auto simp: gen_inv_def)
    then show ?thesis by (simp add: valid_node_def len)
  qed
  moreover have "no_parallel (channels ?net)"
    using inv by (simp add: gen_inv_def no_parallel_def)
  ultimately show ?thesis unfolding caps by blast
qed

text \<open>
  The instance below draws \<open>1/2\<close> for every inclusion and for every capacity the double
  \<open>3752999689475413 / 2^52\<close>, which lies just below \<open>10/12\<close>: its double product with 12
  is 10, so the capacity is the entry of index 10.
\<close>

theorem generateNetwork_channels_wf_witness:
  "channels (generateNetwork 3 (3 / 4)
       (\<lambda>k. if even k then 1 / 2 else 3752999689475413 / 4503599627370496)) =
     [\<lparr>start = 0, endp = 1, capacity = Some 100000000\<rparr>,
      \<lparr>start = 0, endp = 2, capacity = Some 100000000\<rparr>,
      \<lparr>start = 1, endp = 2, capacity = Some 100000000\<rparr>] \<and>
   no_parallel (channels (generateNetwork 3 (3 / 4)
       (\<lambda>k. if even k then 1 / 2 else 3752999689475413 / 4503599627370496))) \<and>
   valid_node (generateNetwork 3 (3 / 4)
       (\<lambda>k. if even k then 1 / 2 else 3752999689475413 / 4503599627370496)) 0 \<and>
   valid_node (generateNetwork 3 (3 / 4)
       (\<lambda>k. if even k then 1 / 2 else 3752999689475413 / 4503599627370496)) 1 \<and>
   valid_node (generateNetwork 3 (3 / 4)
       (\<lambda>k. if even k then 1 / 2 else 3752999689475413 / 4503599627370496)) 2"
proof -
  have "round_to_double (1 / 2) = 1 / 2" by code_simp
  then have d1: "is_double (1 / 2)" by (simp add: is_double_def)
  have "round_to_double (3752999689475413 / 4503599627370496) =
      3752999689475413 / 4503599627370496"
    by code_simp
  then have d2: "is_double (3752999689475413 / 4503599627370496)"
    by (simp add: is_double_def)
  have rng: "\<forall>k::nat.
      is_double (if even k then 1 / 2 else 3752999689475413 / 4503599627370496) \<and>
      0 \<le> (if even k then 1 / 2 else 3752999689475413 / 4503599627370496 :: rat) \<and>
      (if even k then 1 / 2 else 3752999689475413 / 4503599627370496 :: rat) < 1"
    using d1 d2 by simp
  have c: "channels (generateNetwork 3 (3 / 4)
       (\<lambda>k. if even k then 1 / 2 else 3752999689475413 / 4503599627370496)) =
     [\<lparr>start = 0, endp = 1, capacity = Some 100000000\<rparr>,
      \<lparr>start = 0, endp = 2, capacity = Some 100000000\<rparr>,
      \<lparr>start = 1, endp = 2, capacity = Some 100000000\<rparr>]"
    by code_simp
  from generateNetwork_channels_wf[OF rng, of 3 "3 / 4"] c show ?thesis by simp
qed

text \<open>
  The index is the floor of the double product and not of the exact one: for the draw
  above the exact product lies below 10. The largest double below one still yields the
  last entry of the table.
\<close>

lemma generateCapacity_double_product:
  "generateCapacity (3752999689475413 / 4503599627370496) = Some 100000000 \<and>
   \<lfloor>(3752999689475413 / 4503599627370496 :: rat) * 12\<rfloor> = 9 \<and>
   generateCapacity (1 - 1 / 2 ^ 53) = Some 200000000"
  by code_simp

subsection \<open>Formatting\<close>

text \<open>
  C8: above 100,000,000 sats the amount is shown in BTC (the amount divided by
  100,000,000, two decimals), below in million sats (the amount divided by 1,000,000,
  two decimals); 250,000,000 is shown as 2.50 BTC and 15,000,000 as 15.00m sats.
\<close>

theorem formatCapacity_units:
  "(100000000 < sats \<longrightarrow>
      formatCapacity sats = toFixed2 (number_div sats 100000000) @ '' BTC'') \<and>
   (sats < 100000000 \<longrightarrow>
      formatCapacity sats = toFixed2 (number_div sats 1000000) @ ''m sats'') \<and>
   formatCapacity 250000000 = ''2.50 BTC'' \<and>
   formatCapacity 15000000 = ''15.00m sats''"
proof -
  have "formatCapacity 250000000 = ''2.50 BTC''" by code_simp
  moreover have "formatCapacity 15000000 = ''15.00m sats''" by code_simp
  ultimately show ?thesis by (simp add: formatCapacity_def)
qed

theorem formatCapacity_units_witness:
  "(100000000::int) < 1234567890 \<and> formatCapacity 1234567890 = ''12.35 BTC'' \<and>
   (99999999::int) < 100000000 \<and> formatCapacity 99999999 = ''100.00m sats''"
proof -
  have a: "toFixed2 (number_div 1234567890 100000000) = ''12.35''" by code_simp
  have b: "toFixed2 (number_div 99999999 1000000) = ''100.00''" by code_simp
  from formatCapacity_units[of 1234567890] formatCapacity_units[of 99999999] a b
  show ?thesis by simp
qed

text \<open>
  The quotient is a double and not the exact fraction: one tenth is the double nearest
  to it, and 100,500,000 sats print as 1.00 BTC because the double nearest to 1.005 lies
  below it.
\<close>

lemma number_div_tenth: "number_div 1 10 = 3602879701896397 / 36028797018963968"
  by code_simp

lemma formatCapacity_rounds_double: "formatCapacity 100500000 = ''1.00 BTC''"
  by code_simp

text \<open>From \<open>10^21\<close> on the number is printed in exponent notation.\<close>

lemma toFixed2_exponent:
  "toFixed2 (10 ^ 21) = ''1e+21'' \<and> toFixed2 (15 * 10 ^ 21) = ''1.5e+22''"
  by code_simp

text \<open>
  C10: at exactly 100,000,000 sats the amount is shown in BTC, as 1.00 BTC.
\<close>

theorem formatCapacity_boundary: "formatCapacity 100000000 = ''1.00 BTC''"
  by code_simp

end
